theory Spec2Isabelle
  imports Main "HOL-Library.Multiset"
begin

section \<open>The optimistic binary search tree of parfold (bst.py)\<close>

text \<open>
  The tree of \<^verbatim>\<open>bst.py\<close> is a graph of mutable \<^verbatim>\<open>Node\<close> objects shared by every
  running \<^verbatim>\<open>insert\<close> coroutine.  Objects live in an explicit store: a list of node
  records, an object reference being the index of its record.  Allocation appends to the
  list, so a reference held by a coroutine stays valid for ever (nothing is deleted).

  Coroutines run on one cooperative scheduler.  The only point at which \<^verbatim>\<open>insert\<close> can
  be suspended is \<^verbatim>\<open>await self._compare(value, node.value)\<close>: the root lock is taken and
  released without an \<^verbatim>\<open>await\<close> in between, so \<^verbatim>\<open>async with self._root_lock\<close> never
  finds the lock held and never suspends.  A coroutine is therefore a frame of local
  variables plus a program counter, and it advances by atomic steps that run from one
  suspension point to the next (or to its return or raise).  A schedule is the list of the
  coroutines that are resumed, in order; a comparison that does not really suspend is the
  schedule that resumes the same coroutine again.
\<close>

subsection \<open>Node and BST\<close>

type_synonym addr = nat

text \<open>\<^verbatim>\<open>class Node\<close>: the field \<^verbatim>\<open>value\<close> is called \<open>nvalue\<close> here.\<close>

record 'a node =
  nvalue :: 'a
  left :: "addr option"
  right :: "addr option"
  version :: int

text \<open>\<^verbatim>\<open>Node(value)\<close>: the dataclass defaults.\<close>

definition Node :: "'a \<Rightarrow> 'a node" where
  "Node v = \<lparr>nvalue = v, left = None, right = None, version = 0\<rparr>"

text \<open>
  \<^verbatim>\<open>class BST\<close>: \<^verbatim>\<open>_root\<close>, \<^verbatim>\<open>_max_retries\<close> and the store of the nodes.  The comparison
  function \<^verbatim>\<open>_compare\<close> is passed to the operations as a parameter: it returns \<open>Inr c\<close>
  for the integer \<open>c\<close>, or \<open>Inl e\<close> when it raises \<open>e\<close>.
\<close>

record 'a bst =
  root :: "addr option"
  heap :: "'a node list"
  max_retries :: int

text \<open>\<^verbatim>\<open>BST.__init__\<close>\<close>

definition BST :: "int \<Rightarrow> 'a bst" where
  "BST mr = \<lparr>root = None, heap = [], max_retries = mr\<rparr>"

subsection \<open>The frame of one call of insert\<close>

text \<open>
  Where a call returned: line 72 (root claimed under the lock), line 84 (root assigned
  inside the loop), lines 91 and 96 (attached as a left or right child).
\<close>

datatype ret_site = Root_Claimed | Root_In_Loop | Attached_Left | Attached_Right

text \<open>
  The program counter: not yet started, suspended in the comparison of line 107, returned,
  raised the \<^verbatim>\<open>RuntimeError\<close> of line 121, or left by an error \<open>e\<close> of the comparison.
\<close>

datatype 'e pc = Start | Await_Compare | Returned ret_site | Retry_Exhausted | Raised 'e

record ('a, 'e) frame =
  ivalue :: 'a
  retries :: int
  node :: "addr option"
  parent :: "addr option"
  go_left :: bool
  saved_version :: int
  saved_left :: "addr option"
  saved_right :: "addr option"
  pc :: "'e pc"

definition call_insert :: "'a \<Rightarrow> ('a, 'e) frame" where
  "call_insert v = \<lparr>ivalue = v, retries = 0, node = None, parent = None, go_left = False,
     saved_version = 0, saved_left = None, saved_right = None, pc = Start\<rparr>"

subsection \<open>insert, from one suspension point to the next\<close>

text \<open>
  The two stores of lines 89-90 and 94-95; the new node is the next free index.  (The
  source allocates \<^verbatim>\<open>new_node\<close> before it tests the slot; a node that is not stored
  anywhere is unreachable, so the model allocates it when it is stored.)
\<close>

definition attach_left :: "'a bst \<Rightarrow> addr \<Rightarrow> 'a \<Rightarrow> 'a bst" where
  "attach_left t p v =
     t\<lparr>heap := (heap t)[p := (heap t ! p)\<lparr>left := Some (length (heap t)),
                                           version := version (heap t ! p) + 1\<rparr>] @ [Node v]\<rparr>"

definition attach_right :: "'a bst \<Rightarrow> addr \<Rightarrow> 'a \<Rightarrow> 'a bst" where
  "attach_right t p v =
     t\<lparr>heap := (heap t)[p := (heap t ! p)\<lparr>right := Some (length (heap t)),
                                           version := version (heap t ! p) + 1\<rparr>] @ [Node v]\<rparr>"

definition set_root :: "'a bst \<Rightarrow> 'a \<Rightarrow> 'a bst" where
  "set_root t v = t\<lparr>root := Some (length (heap t)), heap := heap t @ [Node v]\<rparr>"

text \<open>Lines 98-100: a failed attachment counts as a retry and goes back to the root.\<close>

definition retry_from_root :: "'a bst \<Rightarrow> ('a, 'e) frame \<Rightarrow> ('a, 'e) frame" where
  "retry_from_root t f = f\<lparr>retries := retries f + 1, node := root t, parent := None\<rparr>"

text \<open>
  The \<^verbatim>\<open>while\<close> loop of lines 79-121, entered at its test with the locals of the
  frame, and run until the call is suspended, returns or raises.  After a failed
  attachment the loop goes round once more, from the root.
\<close>

function loop :: "'a bst \<Rightarrow> ('a, 'e) frame \<Rightarrow> 'a bst \<times> ('a, 'e) frame" where
  "loop t f =
    (if \<not> retries f < max_retries t then (t, f\<lparr>pc := Retry_Exhausted\<rparr>)
     else case node f of
       None \<Rightarrow>
         (case parent f of
            None \<Rightarrow> (set_root t (ivalue f), f\<lparr>pc := Returned Root_In_Loop\<rparr>)
          | Some p \<Rightarrow>
              let expected_version = version (heap t ! p) in
              if go_left f then
                if left (heap t ! p) = None \<and> version (heap t ! p) = expected_version
                then (attach_left t p (ivalue f), f\<lparr>pc := Returned Attached_Left\<rparr>)
                else loop t (retry_from_root t f)
              else
                if right (heap t ! p) = None \<and> version (heap t ! p) = expected_version
                then (attach_right t p (ivalue f), f\<lparr>pc := Returned Attached_Right\<rparr>)
                else loop t (retry_from_root t f))
     | Some n \<Rightarrow>
         (t, f\<lparr>saved_version := version (heap t ! n), saved_left := left (heap t ! n),
               saved_right := right (heap t ! n), pc := Await_Compare\<rparr>))"
  by pat_completeness auto

termination
  by (relation "measure (\<lambda>(t, f). case parent f of None \<Rightarrow> 0 | Some _ \<Rightarrow> Suc 0)")
     (auto simp: retry_from_root_def)

declare loop.simps [simp del]

text \<open>Lines 68-77: the double-checked claim of the root, then the first entry of the loop.\<close>

definition start :: "'a bst \<Rightarrow> ('a, 'e) frame \<Rightarrow> 'a bst \<times> ('a, 'e) frame" where
  "start t f =
    (if root t = None \<and> root t = None
     then (set_root t (ivalue f), f\<lparr>pc := Returned Root_Claimed\<rparr>)
     else loop t (f\<lparr>retries := 0, node := root t, parent := None, go_left := False\<rparr>))"

text \<open>
  Lines 107-119: the comparison delivers its result (or raises), the version is read
  again, and the loop is entered again.  The comparison was called on \<^verbatim>\<open>node.value\<close>,
  which is never assigned after the node is built.
\<close>

definition resume ::
  "('a \<Rightarrow> 'a \<Rightarrow> 'e + int) \<Rightarrow> 'a bst \<Rightarrow> ('a, 'e) frame \<Rightarrow> 'a bst \<times> ('a, 'e) frame" where
  "resume compare t f =
    (case node f of
       None \<Rightarrow> (t, f)
     | Some n \<Rightarrow>
        (case compare (ivalue f) (nvalue (heap t ! n)) of
           Inl e \<Rightarrow> (t, f\<lparr>pc := Raised e\<rparr>)
         | Inr cmp \<Rightarrow>
            if version (heap t ! n) \<noteq> saved_version f
            then loop t (f\<lparr>retries := retries f + 1\<rparr>)
            else if cmp < 0
            then loop t (f\<lparr>parent := node f, go_left := True, node := saved_left f\<rparr>)
            else loop t (f\<lparr>parent := node f, go_left := False, node := saved_right f\<rparr>)))"

definition insert_step ::
  "('a \<Rightarrow> 'a \<Rightarrow> 'e + int) \<Rightarrow> 'a bst \<Rightarrow> ('a, 'e) frame \<Rightarrow> 'a bst \<times> ('a, 'e) frame" where
  "insert_step compare t f =
    (case pc f of
       Start \<Rightarrow> start t f
     | Await_Compare \<Rightarrow> resume compare t f
     | _ \<Rightarrow> (t, f))"

subsection \<open>Many calls on one tree\<close>

record ('a, 'e) sys =
  tree :: "'a bst"
  tasks :: "('a, 'e) frame list"

text \<open>\<^verbatim>\<open>tree = BST(compare, max_retries)\<close> and one call of \<^verbatim>\<open>tree.insert\<close> per value.\<close>

definition init :: "int \<Rightarrow> 'a list \<Rightarrow> ('a, 'e) sys" where
  "init mr vs = \<lparr>tree = BST mr, tasks = map call_insert vs\<rparr>"

text \<open>The scheduler resumes call \<open>i\<close>; a call that has finished is not resumed.\<close>

definition sys_step :: "('a \<Rightarrow> 'a \<Rightarrow> 'e + int) \<Rightarrow> nat \<Rightarrow> ('a, 'e) sys \<Rightarrow> ('a, 'e) sys" where
  "sys_step compare i s =
    (if i < length (tasks s)
     then (case insert_step compare (tree s) (tasks s ! i) of
             (t', f') \<Rightarrow> \<lparr>tree = t', tasks = (tasks s)[i := f']\<rparr>)
     else s)"

primrec run :: "('a \<Rightarrow> 'a \<Rightarrow> 'e + int) \<Rightarrow> nat list \<Rightarrow> ('a, 'e) sys \<Rightarrow> ('a, 'e) sys" where
  "run compare [] s = s"
| "run compare (i # sched) s = run compare sched (sys_step compare i s)"

subsection \<open>to_list, __len__ and contains\<close>

text \<open>
  \<^verbatim>\<open>to_list\<close> and \<^verbatim>\<open>__len__\<close> recurse over the tree with the nested functions
  \<^verbatim>\<open>inorder\<close> and \<^verbatim>\<open>count\<close>, one Python frame per level.  The first argument is the
  number of nested calls that the interpreter still allows when the traversal starts (its
  recursion limit, 1000 unless changed, less the frames already on the stack); a call made
  when none is left raises \<^verbatim>\<open>RecursionError\<close>, which neither function catches.
\<close>

datatype py_error = RecursionError



fun count :: "nat \<Rightarrow> 'a node list \<Rightarrow> addr option \<Rightarrow> py_error + nat" where
  "count 0 h p = Inl RecursionError"
| "count (Suc k) h None = Inr 0"
| "count (Suc k) h (Some a) =
     (case count k h (left (h ! a)) of
        Inl e \<Rightarrow> Inl e
      | Inr cl \<Rightarrow>
         (case count k h (right (h ! a)) of
            Inl e \<Rightarrow> Inl e
          | Inr cr \<Rightarrow> Inr (1 + cl + cr)))"

definition len :: "nat \<Rightarrow> 'a bst \<Rightarrow> py_error + nat" where
  "len k t = count k (heap t) (root t)"

text \<open>
  \<^verbatim>\<open>contains\<close> is a loop: its first argument bounds the number of iterations, and \<open>None\<close>
  says that the loop has not returned within the bound.
\<close>

fun contains_loop ::
  "nat \<Rightarrow> ('a \<Rightarrow> 'a \<Rightarrow> 'e + int) \<Rightarrow> 'a node list \<Rightarrow> 'a \<Rightarrow> addr option \<Rightarrow> ('e + bool) option" where
  "contains_loop 0 compare h v p = None"
| "contains_loop (Suc k) compare h v None = Some (Inr False)"
| "contains_loop (Suc k) compare h v (Some a) =
     (case compare v (nvalue (h ! a)) of
        Inl e \<Rightarrow> Some (Inl e)
      | Inr cmp \<Rightarrow>
         if cmp = 0 then Some (Inr True)
         else contains_loop k compare h v (if cmp < 0 then left (h ! a) else right (h ! a)))"

definition contains ::
  "nat \<Rightarrow> ('a \<Rightarrow> 'a \<Rightarrow> 'e + int) \<Rightarrow> 'a bst \<Rightarrow> 'a \<Rightarrow> ('e + bool) option" where
  "contains k compare t v = contains_loop k compare (heap t) v (root t)"

text \<open>
  The node at which \<^verbatim>\<open>contains(v)\<close>, started at \<open>p\<close>, makes its comparison number
  \<open>j + 1\<close>: the first \<open>j\<close> comparisons have returned a non-zero integer and the loop
  has followed the left or right child accordingly.
\<close>

fun search_reaches ::
  "nat \<Rightarrow> ('a \<Rightarrow> 'a \<Rightarrow> 'e + int) \<Rightarrow> 'a node list \<Rightarrow> 'a \<Rightarrow> addr option \<Rightarrow> addr \<Rightarrow> bool" where
  "search_reaches 0 compare h v p a = (p = Some a)"
| "search_reaches (Suc j) compare h v p a =
     (case p of
        None \<Rightarrow> False
      | Some b \<Rightarrow>
         (case compare v (nvalue (h ! b)) of
            Inl e \<Rightarrow> False
          | Inr cmp \<Rightarrow>
             cmp \<noteq> 0
             \<and> search_reaches j compare h v (if cmp < 0 then left (h ! b) else right (h ! b)) a))"

section \<open>The tree that the store represents\<close>

datatype 'a gtree = Leaf | Br "'a gtree" addr 'a "'a gtree"

fun addrs :: "'a gtree \<Rightarrow> addr list" where
  "addrs Leaf = []"
| "addrs (Br l a w r) = addrs l @ a # addrs r"

fun vals :: "'a gtree \<Rightarrow> 'a list" where
  "vals Leaf = []"
| "vals (Br l a w r) = vals l @ w # vals r"


fun repr :: "'a node list \<Rightarrow> 'a gtree \<Rightarrow> addr option \<Rightarrow> bool" where
  "repr h Leaf p = (p = None)"
| "repr h (Br l a w r) p =
     (p = Some a \<and> a < length h \<and> nvalue (h ! a) = w
      \<and> repr h l (left (h ! a)) \<and> repr h r (right (h ! a)))"

definition lt :: "('a \<Rightarrow> 'a \<Rightarrow> 'e + int) \<Rightarrow> 'a \<Rightarrow> 'a \<Rightarrow> bool" where
  "lt compare v w = (case compare v w of Inl e \<Rightarrow> False | Inr c \<Rightarrow> c < 0)"

definition ge :: "('a \<Rightarrow> 'a \<Rightarrow> 'e + int) \<Rightarrow> 'a \<Rightarrow> 'a \<Rightarrow> bool" where
  "ge compare v w = (case compare v w of Inl e \<Rightarrow> False | Inr c \<Rightarrow> \<not> c < 0)"

fun gins :: "('a \<Rightarrow> 'a \<Rightarrow> 'e + int) \<Rightarrow> addr \<Rightarrow> 'a \<Rightarrow> 'a gtree \<Rightarrow> 'a gtree" where
  "gins compare n v Leaf = Br Leaf n v Leaf"
| "gins compare n v (Br l a w r) =
     (if lt compare v w then Br (gins compare n v l) a w r
      else Br l a w (gins compare n v r))"

fun on_path :: "('a \<Rightarrow> 'a \<Rightarrow> 'e + int) \<Rightarrow> 'a gtree \<Rightarrow> 'a \<Rightarrow> addr \<Rightarrow> bool" where
  "on_path compare Leaf v n = False"
| "on_path compare (Br l a w r) v n =
     (n = a \<or> (lt compare v w \<and> on_path compare l v n)
            \<or> (ge compare v w \<and> on_path compare r v n))"

fun bst_ok :: "('a \<Rightarrow> 'a \<Rightarrow> 'e + int) \<Rightarrow> 'a gtree \<Rightarrow> bool" where
  "bst_ok compare Leaf = True"
| "bst_ok compare (Br l a w r) =
     (bst_ok compare l \<and> bst_ok compare r
      \<and> (\<forall>x \<in> set (vals l). lt compare x w) \<and> (\<forall>y \<in> set (vals r). ge compare y w))"

fun slot :: "('a \<Rightarrow> 'a \<Rightarrow> 'e + int) \<Rightarrow> 'a gtree \<Rightarrow> 'a \<Rightarrow> bool" where
  "slot compare Leaf v = True"
| "slot compare (Br l a w r) v =
     ((lt compare v w \<and> slot compare l v) \<or> (ge compare v w \<and> slot compare r v))"

definition returned :: "('a, 'e) frame \<Rightarrow> bool" where
  "returned f = (case pc f of Returned site \<Rightarrow> True | _ \<Rightarrow> False)"

definition inserted :: "('a, 'e) sys \<Rightarrow> 'a multiset" where
  "inserted s = image_mset ivalue (filter_mset returned (mset (tasks s)))"

definition snapshot_ok :: "'a bst \<Rightarrow> ('a, 'e) frame \<Rightarrow> addr \<Rightarrow> bool" where
  "snapshot_ok t f n =
     (saved_version f \<le> version (heap t ! n)
      \<and> (saved_version f = version (heap t ! n)
           \<longrightarrow> saved_left f = left (heap t ! n) \<and> saved_right f = right (heap t ! n)))"

definition frame_ok ::
  "('a \<Rightarrow> 'a \<Rightarrow> 'e + int) \<Rightarrow> 'a bst \<Rightarrow> 'a gtree \<Rightarrow> ('a, 'e) frame \<Rightarrow> bool" where
  "frame_ok compare t T f =
     (case pc f of
        Await_Compare \<Rightarrow>
          (case node f of
             None \<Rightarrow> False
           | Some n \<Rightarrow> on_path compare T (ivalue f) n \<and> retries f < max_retries t
                        \<and> snapshot_ok t f n)
      | Returned site \<Rightarrow> site \<noteq> Root_In_Loop
      | _ \<Rightarrow> True)"

definition tree_ok :: "('a \<Rightarrow> 'a \<Rightarrow> 'e + int) \<Rightarrow> 'a bst \<Rightarrow> 'a gtree \<Rightarrow> bool" where
  "tree_ok compare t T =
     (repr (heap t) T (root t) \<and> distinct (addrs T) \<and> length (addrs T) = length (heap t)
      \<and> bst_ok compare T)"

definition sys_ok :: "('a \<Rightarrow> 'a \<Rightarrow> 'e + int) \<Rightarrow> ('a, 'e) sys \<Rightarrow> 'a gtree \<Rightarrow> bool" where
  "sys_ok compare s T =
     (tree_ok compare (tree s) T
      \<and> (\<forall>f \<in> set (tasks s). frame_ok compare (tree s) T f)
      \<and> mset (vals T) = inserted s)"

text \<open>What one step of a call does to the tree: nothing, or one new node.\<close>

definition grows ::
  "('a \<Rightarrow> 'a \<Rightarrow> 'e + int) \<Rightarrow> 'a bst \<Rightarrow> 'a gtree \<Rightarrow> 'a bst \<Rightarrow> 'a gtree \<Rightarrow> 'a \<Rightarrow> bool" where
  "grows compare t T t' T' v =
     (tree_ok compare t' T' \<and> mset (vals T') = add_mset v (mset (vals T))
      \<and> (\<forall>g. frame_ok compare t T g \<longrightarrow> frame_ok compare t' T' g))"

definition consistent :: "('a \<Rightarrow> 'a \<Rightarrow> int) \<Rightarrow> bool" where
  "consistent c =
     ((\<forall>a b. (c a b < 0) = (0 < c b a))
      \<and> (\<forall>a b d. c a b \<le> 0 \<longrightarrow> c b d \<le> 0 \<longrightarrow> c a d \<le> 0))"

definition pure :: "('a \<Rightarrow> 'a \<Rightarrow> int) \<Rightarrow> 'a \<Rightarrow> 'a \<Rightarrow> 'e + int" where
  "pure c a b = Inr (c a b)"

subsection \<open>How nodes change, and calls that have finished\<close>

definition populated :: "addr option \<Rightarrow> addr option \<Rightarrow> int" where
  "populated old new = (if old = None \<and> new \<noteq> None then 1 else 0)"

definition node_evolves :: "'a node \<Rightarrow> 'a node \<Rightarrow> bool" where
  "node_evolves x y =
     (nvalue y = nvalue x
      \<and> (left x \<noteq> None \<longrightarrow> left y = left x)
      \<and> (right x \<noteq> None \<longrightarrow> right y = right x)
      \<and> version y = version x + populated (left x) (left y) + populated (right x) (right y))"

definition nodes_evolve :: "'a node list \<Rightarrow> 'a node list \<Rightarrow> bool" where
  "nodes_evolve h h' =
     (length h \<le> length h'
      \<and> (\<forall>a < length h. node_evolves (h ! a) (h' ! a))
      \<and> (\<forall>a < length h'. length h \<le> a \<longrightarrow> node_evolves (Node (nvalue (h' ! a))) (h' ! a)))"

definition finished :: "('a, 'e) frame \<Rightarrow> bool" where
  "finished f = (pc f \<noteq> Start \<and> pc f \<noteq> Await_Compare)"

definition root_claimed :: "('a, 'e) frame \<Rightarrow> bool" where
  "root_claimed f = (pc f = Returned Root_Claimed)"

section \<open>CachedCompare\<close>









subsection \<open>Progress of a call\<close>



subsection \<open>Sorted input\<close>






section \<open>Properties\<close>

subsection \<open>The loop, case by case\<close>

lemma loop_exhausted:
  "\<not> retries f < max_retries t \<Longrightarrow> loop t f = (t, f\<lparr>pc := Retry_Exhausted\<rparr>)"
  by (simp add: loop.simps)

lemma ge_not_lt: "ge compare v w \<Longrightarrow> \<not> lt compare v w"
  by (auto simp: ge_def lt_def split: sum.splits)

lemma repr_None [simp]: "repr h T None = (T = Leaf)"
  by (cases T) auto

lemma repr_bound: "repr h T p \<Longrightarrow> a \<in> set (addrs T) \<Longrightarrow> a < length h"
  by (induction T arbitrary: p) auto

lemma repr_append: "repr h T p \<Longrightarrow> repr (h @ xs) T p"
  by (induction T arbitrary: p) (auto simp: nth_append)

lemma repr_update: "repr h T p \<Longrightarrow> q \<notin> set (addrs T) \<Longrightarrow> repr (h[q := x]) T p"
  by (induction T arbitrary: p) auto

lemma on_path_mem: "on_path compare T v n \<Longrightarrow> n \<in> set (addrs T)"
  by (induction T) auto

lemma on_path_gins: "on_path compare T v n \<Longrightarrow> on_path compare (gins compare m w T) v n"
  by (induction T) auto

lemma addrs_gins: "set (addrs (gins compare n v T)) = insert n (set (addrs T))"
  by (induction T) auto

lemma distinct_gins:
  "distinct (addrs T) \<Longrightarrow> n \<notin> set (addrs T) \<Longrightarrow> distinct (addrs (gins compare n v T))"
  by (induction T) (auto simp: addrs_gins)

lemma length_addrs_gins: "length (addrs (gins compare n v T)) = Suc (length (addrs T))"
  by (induction T) auto

lemma mset_vals_gins: "mset (vals (gins compare n v T)) = add_mset v (mset (vals T))"
  by (induction T) auto

lemma set_vals_gins: "set (vals (gins compare n v T)) = insert v (set (vals T))"
  by (induction T) auto

lemma repr_gins_left:
  "repr h T q \<Longrightarrow> distinct (addrs T) \<Longrightarrow> on_path compare T v p
   \<Longrightarrow> lt compare v (nvalue (h ! p)) \<Longrightarrow> left (h ! p) = None
   \<Longrightarrow> repr (h[p := (h ! p)\<lparr>left := Some (length h), version := k\<rparr>] @ [Node v])
         (gins compare (length h) v T) q"
proof (induction T arbitrary: q)
  case Leaf
  then show ?case by simp
next
  case (Br l a w r)
  let ?h' = "h[p := (h ! p)\<lparr>left := Some (length h), version := k\<rparr>] @ [Node v]"
  from Br.prems(1) have q: "q = Some a" and a: "a < length h" and w: "nvalue (h ! a) = w"
    and rl: "repr h l (left (h ! a))" and rr: "repr h r (right (h ! a))" by auto
  from Br.prems(2) have dl: "distinct (addrs l)" and dr: "distinct (addrs r)"
    and al: "a \<notin> set (addrs l)" and ar: "a \<notin> set (addrs r)"
    and disj: "set (addrs l) \<inter> set (addrs r) = {}" by auto
  show ?case
  proof (cases "p = a")
    case True
    with Br.prems(4,5) w rl have l: "l = Leaf" and ltv: "lt compare v w" by auto
    have "repr (h[p := (h ! p)\<lparr>left := Some (length h), version := k\<rparr>]) r (right (h ! a))"
      using rr ar True by (intro repr_update) auto
    then have "repr ?h' r (right (h ! a))" by (rule repr_append)
    with True a w l ltv q show ?thesis by (simp add: nth_append Node_def)
  next
    case False
    with Br.prems(3) consider (L) "lt compare v w" "on_path compare l v p"
      | (R) "ge compare v w" "on_path compare r v p" by auto
    then show ?thesis
    proof cases
      case L
      have pl: "p \<in> set (addrs l)" using L(2) by (rule on_path_mem)
      with disj have "p \<notin> set (addrs r)" by auto
      then have "repr (h[p := (h ! p)\<lparr>left := Some (length h), version := k\<rparr>]) r (right (h ! a))"
        using rr by (intro repr_update)
      then have r': "repr ?h' r (right (h ! a))" by (rule repr_append)
      have "repr ?h' (gins compare (length h) v l) (left (h ! a))"
        using Br.IH(1)[OF rl dl L(2) Br.prems(4,5)] .
      with r' False a w q L(1) show ?thesis by (simp add: nth_append)
    next
      case R
      have pr: "p \<in> set (addrs r)" using R(2) by (rule on_path_mem)
      with disj have "p \<notin> set (addrs l)" by auto
      then have "repr (h[p := (h ! p)\<lparr>left := Some (length h), version := k\<rparr>]) l (left (h ! a))"
        using rl by (intro repr_update)
      then have l': "repr ?h' l (left (h ! a))" by (rule repr_append)
      have "repr ?h' (gins compare (length h) v r) (right (h ! a))"
        using Br.IH(2)[OF rr dr R(2) Br.prems(4,5)] .
      with l' False a w q ge_not_lt[OF R(1)] show ?thesis by (simp add: nth_append)
    qed
  qed
qed

lemma repr_gins_right:
  "repr h T q \<Longrightarrow> distinct (addrs T) \<Longrightarrow> on_path compare T v p
   \<Longrightarrow> ge compare v (nvalue (h ! p)) \<Longrightarrow> right (h ! p) = None
   \<Longrightarrow> repr (h[p := (h ! p)\<lparr>right := Some (length h), version := k\<rparr>] @ [Node v])
         (gins compare (length h) v T) q"
proof (induction T arbitrary: q)
  case Leaf
  then show ?case by simp
next
  case (Br l a w r)
  let ?u = "h[p := (h ! p)\<lparr>right := Some (length h), version := k\<rparr>]"
  let ?h' = "?u @ [Node v]"
  from Br.prems(1) have q: "q = Some a" and a: "a < length h" and w: "nvalue (h ! a) = w"
    and rl: "repr h l (left (h ! a))" and rr: "repr h r (right (h ! a))" by auto
  from Br.prems(2) have dl: "distinct (addrs l)" and dr: "distinct (addrs r)"
    and al: "a \<notin> set (addrs l)" and ar: "a \<notin> set (addrs r)"
    and disj: "set (addrs l) \<inter> set (addrs r) = {}" by auto
  show ?case
  proof (cases "p = a")
    case True
    with Br.prems(4,5) w rr have r: "r = Leaf" and gev: "ge compare v w" by auto
    have "repr ?u l (left (h ! a))"
      using rl al True by (intro repr_update) auto
    then have "repr ?h' l (left (h ! a))" by (rule repr_append)
    with True a w r ge_not_lt[OF gev] q show ?thesis by (simp add: nth_append Node_def)
  next
    case False
    with Br.prems(3) consider (L) "lt compare v w" "on_path compare l v p"
      | (R) "ge compare v w" "on_path compare r v p" by auto
    then show ?thesis
    proof cases
      case L
      have pl: "p \<in> set (addrs l)" using L(2) by (rule on_path_mem)
      with disj have "p \<notin> set (addrs r)" by auto
      then have "repr ?u r (right (h ! a))"
        using rr by (intro repr_update)
      then have r': "repr ?h' r (right (h ! a))" by (rule repr_append)
      have "repr ?h' (gins compare (length h) v l) (left (h ! a))"
        using Br.IH(1)[OF rl dl L(2) Br.prems(4,5)] .
      with r' False a w q L(1) show ?thesis by (simp add: nth_append)
    next
      case R
      have pr: "p \<in> set (addrs r)" using R(2) by (rule on_path_mem)
      with disj have "p \<notin> set (addrs l)" by auto
      then have "repr ?u l (left (h ! a))"
        using rl by (intro repr_update)
      then have l': "repr ?h' l (left (h ! a))" by (rule repr_append)
      have "repr ?h' (gins compare (length h) v r) (right (h ! a))"
        using Br.IH(2)[OF rr dr R(2) Br.prems(4,5)] .
      with l' False a w q ge_not_lt[OF R(1)] show ?thesis by (simp add: nth_append)
    qed
  qed
qed

lemma bst_ok_gins: "bst_ok compare T \<Longrightarrow> slot compare T v \<Longrightarrow> bst_ok compare (gins compare n v T)"
  by (induction T) (auto simp: set_vals_gins dest: ge_not_lt)

lemma slot_left:
  "repr h T q \<Longrightarrow> on_path compare T v p \<Longrightarrow> lt compare v (nvalue (h ! p))
   \<Longrightarrow> left (h ! p) = None \<Longrightarrow> slot compare T v"
  by (induction T arbitrary: q) auto

lemma slot_right:
  "repr h T q \<Longrightarrow> on_path compare T v p \<Longrightarrow> ge compare v (nvalue (h ! p))
   \<Longrightarrow> right (h ! p) = None \<Longrightarrow> slot compare T v"
  by (induction T arbitrary: q) auto

lemma on_path_left:
  "repr h T q \<Longrightarrow> on_path compare T v n \<Longrightarrow> lt compare v (nvalue (h ! n))
   \<Longrightarrow> left (h ! n) = Some m \<Longrightarrow> on_path compare T v m"
proof (induction T arbitrary: q)
  case Leaf
  then show ?case by simp
next
  case (Br l a w r)
  show ?case
  proof (cases "n = a")
    case True
    with Br.prems have "repr h l (Some m)" "lt compare v w" by auto
    then show ?thesis by (cases l) auto
  next
    case False
    with Br show ?thesis by auto
  qed
qed

lemma on_path_right:
  "repr h T q \<Longrightarrow> on_path compare T v n \<Longrightarrow> ge compare v (nvalue (h ! n))
   \<Longrightarrow> right (h ! n) = Some m \<Longrightarrow> on_path compare T v m"
proof (induction T arbitrary: q)
  case Leaf
  then show ?case by simp
next
  case (Br l a w r)
  show ?case
  proof (cases "n = a")
    case True
    with Br.prems have "repr h r (Some m)" "ge compare v w" by auto
    then show ?thesis by (cases r) auto
  next
    case False
    with Br show ?thesis by auto
  qed
qed

lemma on_path_root: "repr h T (Some a) \<Longrightarrow> on_path compare T v a"
  by (cases T) auto

lemma loop_present:
  "retries f < max_retries t \<Longrightarrow> node f = Some n \<Longrightarrow>
   loop t f = (t, f\<lparr>saved_version := version (heap t ! n), saved_left := left (heap t ! n),
                     saved_right := right (heap t ! n), pc := Await_Compare\<rparr>)"
  by (simp add: loop.simps)

lemma loop_attach_left:
  "retries f < max_retries t \<Longrightarrow> node f = None \<Longrightarrow> parent f = Some p \<Longrightarrow> go_left f
   \<Longrightarrow> left (heap t ! p) = None
   \<Longrightarrow> loop t f = (attach_left t p (ivalue f), f\<lparr>pc := Returned Attached_Left\<rparr>)"
  by (simp add: loop.simps)

lemma loop_attach_right:
  "retries f < max_retries t \<Longrightarrow> node f = None \<Longrightarrow> parent f = Some p \<Longrightarrow> \<not> go_left f
   \<Longrightarrow> right (heap t ! p) = None
   \<Longrightarrow> loop t f = (attach_right t p (ivalue f), f\<lparr>pc := Returned Attached_Right\<rparr>)"
  by (simp add: loop.simps)

lemma frame_ok_attach:
  assumes T: "repr (heap t) T (root t)"
    and h': "heap t' = (heap t)[p := x] @ [y]" "version (heap t ! p) < version x"
    and mr: "max_retries t' = max_retries t"
    and g: "frame_ok compare t T g"
  shows "frame_ok compare t' (gins compare m w T) g"
proof (cases "pc g = Await_Compare")
  case False
  with g show ?thesis by (auto simp: frame_ok_def split: pc.splits)
next
  case True
  with g obtain n where n: "node g = Some n" "on_path compare T (ivalue g) n"
    "retries g < max_retries t" "snapshot_ok t g n"
    by (auto simp: frame_ok_def split: option.splits)
  from n(2) T have nl: "n < length (heap t)" by (auto dest: on_path_mem repr_bound)
  have "snapshot_ok t' g n"
  proof (cases "n = p")
    case True
    with n(4) h' nl show ?thesis by (auto simp: snapshot_ok_def nth_append)
  next
    case False
    with n(4) h' nl show ?thesis by (auto simp: snapshot_ok_def nth_append)
  qed
  with n True mr show ?thesis by (simp add: frame_ok_def on_path_gins)
qed

lemma grows_attach_left:
  assumes ok: "tree_ok compare t T" and p: "on_path compare T v p"
    and c: "lt compare v (nvalue (heap t ! p))" and e: "left (heap t ! p) = None"
  shows "grows compare t T (attach_left t p v) (gins compare (length (heap t)) v T) v"
proof -
  from ok have T: "repr (heap t) T (root t)" and d: "distinct (addrs T)"
    and len: "length (addrs T) = length (heap t)" and b: "bst_ok compare T"
    by (auto simp: tree_ok_def)
  have fresh: "length (heap t) \<notin> set (addrs T)" using repr_bound[OF T] by auto
  have "tree_ok compare (attach_left t p v) (gins compare (length (heap t)) v T)"
    unfolding tree_ok_def
    using repr_gins_left[OF T d p c e] distinct_gins[OF d fresh]
      bst_ok_gins[OF b slot_left[OF T p c e]] len
    by (simp add: attach_left_def length_addrs_gins)
  moreover have "\<forall>g. frame_ok compare t T g
      \<longrightarrow> frame_ok compare (attach_left t p v) (gins compare (length (heap t)) v T) g"
    by (intro allI impI frame_ok_attach[OF T]) (auto simp: attach_left_def)
  ultimately show ?thesis by (simp add: grows_def mset_vals_gins)
qed

lemma grows_attach_right:
  assumes ok: "tree_ok compare t T" and p: "on_path compare T v p"
    and c: "ge compare v (nvalue (heap t ! p))" and e: "right (heap t ! p) = None"
  shows "grows compare t T (attach_right t p v) (gins compare (length (heap t)) v T) v"
proof -
  from ok have T: "repr (heap t) T (root t)" and d: "distinct (addrs T)"
    and len: "length (addrs T) = length (heap t)" and b: "bst_ok compare T"
    by (auto simp: tree_ok_def)
  have fresh: "length (heap t) \<notin> set (addrs T)" using repr_bound[OF T] by auto
  have "tree_ok compare (attach_right t p v) (gins compare (length (heap t)) v T)"
    unfolding tree_ok_def
    using repr_gins_right[OF T d p c e] distinct_gins[OF d fresh]
      bst_ok_gins[OF b slot_right[OF T p c e]] len
    by (simp add: attach_right_def length_addrs_gins)
  moreover have "\<forall>g. frame_ok compare t T g
      \<longrightarrow> frame_ok compare (attach_right t p v) (gins compare (length (heap t)) v T) g"
    by (intro allI impI frame_ok_attach[OF T]) (auto simp: attach_right_def)
  ultimately show ?thesis by (simp add: grows_def mset_vals_gins)
qed

lemma grows_set_root:
  assumes ok: "tree_ok compare t T" and e: "root t = None"
  shows "grows compare t T (set_root t v) (Br Leaf 0 v Leaf) v"
proof -
  from ok e have T: "T = Leaf" and h: "heap t = []" by (auto simp: tree_ok_def)
  have "\<forall>g. frame_ok compare t T g \<longrightarrow> frame_ok compare (set_root t v) (Br Leaf 0 v Leaf) g"
    using T by (auto simp: frame_ok_def split: pc.splits option.splits)
  then show ?thesis using T h
    by (simp add: grows_def tree_ok_def set_root_def Node_def)
qed

lemma loop_node_ok:
  assumes n: "node f = Some n" and p: "on_path compare T (ivalue f) n"
    and l: "loop t f = (t', f')"
  shows "t' = t \<and> frame_ok compare t T f' \<and> \<not> returned f' \<and> ivalue f' = ivalue f"
proof (cases "retries f < max_retries t")
  case True
  from l show ?thesis unfolding loop_present[OF True n]
    using p n True by (auto simp: frame_ok_def returned_def snapshot_ok_def)
next
  case False
  from l show ?thesis unfolding loop_exhausted[OF False]
    by (auto simp: frame_ok_def returned_def)
qed

lemma start_ok:
  assumes ok: "tree_ok compare t T" and st: "start t f = (t', f')"
  shows "ivalue f' = ivalue f \<and>
     ((t' = t \<and> frame_ok compare t T f' \<and> \<not> returned f')
      \<or> (returned f' \<and> frame_ok compare t' (Br Leaf 0 (ivalue f) Leaf) f'
          \<and> grows compare t T t' (Br Leaf 0 (ivalue f) Leaf) (ivalue f)))"
proof (cases "root t")
  case None
  with st grows_set_root[OF ok None, of "ivalue f"] show ?thesis
    by (auto simp: start_def returned_def frame_ok_def)
next
  case (Some a)
  let ?f = "f\<lparr>retries := 0, node := root t, parent := None, go_left := False\<rparr>"
  from ok Some have "on_path compare T (ivalue ?f) a"
    by (auto simp: tree_ok_def intro: on_path_root)
  moreover from st Some have "loop t ?f = (t', f')" by (simp add: start_def)
  moreover have "node ?f = Some a" using Some by simp
  ultimately show ?thesis using loop_node_ok[of ?f a compare T t t' f'] by simp
qed

lemma resume_ok:
  assumes ok: "tree_ok compare t T" and f: "frame_ok compare t T f"
    and pc: "pc f = Await_Compare" and st: "resume compare t f = (t', f')"
  shows "ivalue f' = ivalue f \<and>
     ((t' = t \<and> frame_ok compare t T f' \<and> \<not> returned f')
      \<or> (returned f' \<and> frame_ok compare t' (gins compare (length (heap t)) (ivalue f) T) f'
          \<and> grows compare t T t' (gins compare (length (heap t)) (ivalue f) T) (ivalue f)))"
proof -
  from f pc obtain n where n: "node f = Some n" "on_path compare T (ivalue f) n"
    "retries f < max_retries t" "snapshot_ok t f n"
    by (auto simp: frame_ok_def split: option.splits)
  from ok have T: "repr (heap t) T (root t)" by (simp add: tree_ok_def)
  show ?thesis
  proof (cases "compare (ivalue f) (nvalue (heap t ! n))")
    case (Inl e)
    with st n(1) show ?thesis by (auto simp: resume_def frame_ok_def returned_def)
  next
    case (Inr c)
    show ?thesis
    proof (cases "version (heap t ! n) = saved_version f")
      case False
      let ?f = "f\<lparr>retries := retries f + 1\<rparr>"
      from st n(1) Inr False have "loop t ?f = (t', f')" by (simp add: resume_def)
      with loop_node_ok[of ?f n compare T t t' f'] n(1,2) show ?thesis by simp
    next
      case True
      with n(4) have sl: "saved_left f = left (heap t ! n)"
        and sr: "saved_right f = right (heap t ! n)" by (auto simp: snapshot_ok_def)
      show ?thesis
      proof (cases "c < 0")
        case neg: True
        let ?f = "f\<lparr>parent := node f, go_left := True, node := saved_left f\<rparr>"
        from st n(1) Inr True neg have l: "loop t ?f = (t', f')" by (simp add: resume_def)
        from Inr neg have ltv: "lt compare (ivalue f) (nvalue (heap t ! n))"
          by (simp add: lt_def)
        show ?thesis
        proof (cases "left (heap t ! n)")
          case None
          have "loop t ?f = (attach_left t n (ivalue ?f), ?f\<lparr>pc := Returned Attached_Left\<rparr>)"
            using n(1,3) sl None by (intro loop_attach_left) auto
          with l grows_attach_left[OF ok n(2) ltv None] show ?thesis
            by (auto simp: returned_def frame_ok_def)
        next
          case (Some m)
          have "on_path compare T (ivalue ?f) m"
            using on_path_left[OF T n(2) ltv Some] by simp
          with loop_node_ok[of ?f m compare T t t' f'] l sl Some show ?thesis by simp
        qed
      next
        case nonneg: False
        let ?f = "f\<lparr>parent := node f, go_left := False, node := saved_right f\<rparr>"
        from st n(1) Inr True nonneg have l: "loop t ?f = (t', f')" by (simp add: resume_def)
        from Inr nonneg have gev: "ge compare (ivalue f) (nvalue (heap t ! n))"
          by (simp add: ge_def)
        show ?thesis
        proof (cases "right (heap t ! n)")
          case None
          have "loop t ?f = (attach_right t n (ivalue ?f), ?f\<lparr>pc := Returned Attached_Right\<rparr>)"
            using n(1,3) sr None by (intro loop_attach_right) auto
          with l grows_attach_right[OF ok n(2) gev None] show ?thesis
            by (auto simp: returned_def frame_ok_def)
        next
          case (Some m)
          have "on_path compare T (ivalue ?f) m"
            using on_path_right[OF T n(2) gev Some] by simp
          with loop_node_ok[of ?f m compare T t t' f'] l sr Some show ?thesis by simp
        qed
      qed
    qed
  qed
qed

lemma insert_step_ok:
  assumes ok: "tree_ok compare t T" and f: "frame_ok compare t T f"
    and st: "insert_step compare t f = (t', f')"
  shows "ivalue f' = ivalue f \<and>
     ((t' = t \<and> frame_ok compare t T f' \<and> returned f' = returned f)
      \<or> (\<not> returned f \<and> returned f'
          \<and> (\<exists>T'. frame_ok compare t' T' f' \<and> grows compare t T t' T' (ivalue f))))"
proof (cases "pc f")
  case Start
  with st have "start t f = (t', f')" by (simp add: insert_step_def)
  from start_ok[OF ok this] Start show ?thesis by (auto simp: returned_def)
next
  case Await_Compare
  with st have "resume compare t f = (t', f')" by (simp add: insert_step_def)
  from resume_ok[OF ok f Await_Compare this] Await_Compare show ?thesis
    by (auto simp: returned_def)
next
  case (Returned x)
  with st f show ?thesis by (auto simp: insert_step_def)
next
  case Retry_Exhausted
  with st f show ?thesis by (auto simp: insert_step_def)
next
  case (Raised e)
  with st f show ?thesis by (auto simp: insert_step_def)
qed

lemma mset_list_update_split:
  "i < length ts \<Longrightarrow> mset ts = mset (take i ts) + {#ts ! i#} + mset (drop (Suc i) ts)"
  "i < length ts \<Longrightarrow> mset (ts[i := y]) = mset (take i ts) + {#y#} + mset (drop (Suc i) ts)"
proof -
  assume i: "i < length ts"
  have "mset ts = mset (take i ts @ ts ! i # drop (Suc i) ts)"
    using id_take_nth_drop[OF i] by simp
  then show "mset ts = mset (take i ts) + {#ts ! i#} + mset (drop (Suc i) ts)" by simp
  have "mset (ts[i := y]) = mset (take i ts @ y # drop (Suc i) ts)"
    using upd_conv_take_nth_drop[OF i] by simp
  then show "mset (ts[i := y]) = mset (take i ts) + {#y#} + mset (drop (Suc i) ts)" by simp
qed

lemma inserted_split:
  assumes i: "i < length ts"
  shows "inserted \<lparr>tree = t, tasks = ts\<rparr>
         = (if returned (ts ! i) then {#ivalue (ts ! i)#} else {#})
           + image_mset ivalue (filter_mset returned (mset (take i ts) + mset (drop (Suc i) ts)))"
proof -
  have "mset ts = mset (take i ts) + {#ts ! i#} + mset (drop (Suc i) ts)"
    by (rule mset_list_update_split(1)[OF i])
  then have "filter_mset returned (mset ts)
     = filter_mset returned (mset (take i ts) + {#ts ! i#} + mset (drop (Suc i) ts))"
    by (rule arg_cong)
  then show ?thesis by (simp add: inserted_def)
qed

lemma inserted_update:
  assumes i: "i < length ts"
  shows "inserted \<lparr>tree = t, tasks = ts[i := y]\<rparr>
         = (if returned y then {#ivalue y#} else {#})
           + image_mset ivalue (filter_mset returned (mset (take i ts) + mset (drop (Suc i) ts)))"
  using inserted_split[of i "ts[i := y]" t] i by simp

lemma inserted_same:
  assumes "i < length ts" "ivalue f' = ivalue (ts ! i)" "returned f' = returned (ts ! i)"
  shows "inserted \<lparr>tree = t', tasks = ts[i := f']\<rparr> = inserted \<lparr>tree = t, tasks = ts\<rparr>"
  using assms(2,3) by (simp add: inserted_update[OF assms(1)] inserted_split[OF assms(1)])

lemma inserted_new:
  assumes "i < length ts" "\<not> returned (ts ! i)" "returned f'"
  shows "inserted \<lparr>tree = t', tasks = ts[i := f']\<rparr>
         = add_mset (ivalue f') (inserted \<lparr>tree = t, tasks = ts\<rparr>)"
  using assms(2,3) by (simp add: inserted_update[OF assms(1)] inserted_split[OF assms(1)])

lemma sys_step_ok:
  assumes ok: "sys_ok compare s T"
  shows "\<exists>T'. sys_ok compare (sys_step compare i s) T'"
proof (cases "i < length (tasks s)")
  case False
  with ok show ?thesis by (auto simp: sys_step_def)
next
  case True
  let ?f = "tasks s ! i"
  obtain t' f' where st: "insert_step compare (tree s) ?f = (t', f')" by fastforce
  from ok have tok: "tree_ok compare (tree s) T"
    and fok: "\<forall>f \<in> set (tasks s). frame_ok compare (tree s) T f"
    and ins: "mset (vals T) = inserted s" by (auto simp: sys_ok_def)
  from fok True have f: "frame_ok compare (tree s) T ?f" by simp
  have s': "sys_step compare i s = \<lparr>tree = t', tasks = (tasks s)[i := f']\<rparr>"
    using True st by (simp add: sys_step_def)
  have s_eq: "s = \<lparr>tree = tree s, tasks = tasks s\<rparr>" by simp
  from insert_step_ok[OF tok f st] have iv: "ivalue f' = ivalue ?f" by simp
  from insert_step_ok[OF tok f st]
  consider (same) "t' = tree s" "frame_ok compare (tree s) T f'" "returned f' = returned ?f"
    | (grow) T' where "\<not> returned ?f" "returned f'" "frame_ok compare t' T' f'"
        "grows compare (tree s) T t' T' (ivalue ?f)" by blast
  then show ?thesis
  proof cases
    case same
    have "inserted (sys_step compare i s) = inserted s"
      unfolding s' by (subst (2) s_eq, rule inserted_same[OF True iv same(3)])
    moreover have "\<forall>g \<in> set ((tasks s)[i := f']). frame_ok compare (tree s) T g"
      using fok same(2) set_update_subset_insert[of "tasks s" i f'] by auto
    ultimately have "sys_ok compare (sys_step compare i s) T"
      using tok ins same(1) by (simp add: sys_ok_def s')
    then show ?thesis ..
  next
    case grow
    have "inserted (sys_step compare i s) = add_mset (ivalue f') (inserted s)"
      unfolding s' by (subst (2) s_eq, rule inserted_new[OF True grow(1,2)])
    moreover have "\<forall>g \<in> set ((tasks s)[i := f']). frame_ok compare t' T' g"
      using fok grow(3,4) set_update_subset_insert[of "tasks s" i f']
      by (auto simp: grows_def)
    ultimately have "sys_ok compare (sys_step compare i s) T'"
      using grow(4) ins iv by (simp add: sys_ok_def s' grows_def)
    then show ?thesis ..
  qed
qed

lemma inserted_init: "inserted (init mr vs) = {#}"
  by (induction vs) (auto simp: inserted_def init_def returned_def call_insert_def)

lemma init_ok: "sys_ok compare (init mr vs) Leaf"
  by (auto simp: sys_ok_def tree_ok_def inserted_init)
     (auto simp: init_def BST_def frame_ok_def call_insert_def)

lemma run_ok: "\<exists>T. sys_ok compare s T \<Longrightarrow> \<exists>T. sys_ok compare (run compare sched s) T"
proof (induction sched arbitrary: s)
  case Nil
  then show ?case by simp
next
  case (Cons i sched)
  from Cons.prems obtain T where "sys_ok compare s T" ..
  from sys_step_ok[OF this] show ?case by (simp add: Cons.IH)
qed

lemma reachable_ok: "\<exists>T. sys_ok compare (run compare sched (init mr vs)) T"
  using init_ok by (intro run_ok) blast





lemma lt_pure [simp]: "lt (pure c) a b = (c a b < 0)"
  by (simp add: lt_def pure_def)

lemma ge_pure [simp]: "ge (pure c) a b = (\<not> c a b < 0)"
  by (simp add: ge_def pure_def)


lemma contains_repr_member:
  assumes refl: "\<And>a. c a a = 0"
  shows "repr h T p \<Longrightarrow> bst_ok (pure c) T \<Longrightarrow> length (addrs T) < k \<Longrightarrow> v \<in> set (vals T)
         \<Longrightarrow> contains_loop k (pure c) h v p = Some (Inr True)"
proof (induction T arbitrary: k p)
  case Leaf
  then show ?case by simp
next
  case (Br l a w r)
  from Br.prems(3) obtain k' where k: "k = Suc k'" by (cases k) auto
  with Br.prems(3) have kl: "length (addrs l) < k'" and kr: "length (addrs r) < k'" by auto
  from Br.prems(1) have p: "p = Some a" "nvalue (h ! a) = w"
    "repr h l (left (h ! a))" "repr h r (right (h ! a))" by auto
  consider (eq) "c v w = 0" | (less) "c v w < 0" | (greater) "0 < c v w" by linarith
  then show ?case
  proof cases
    case eq
    with p k show ?thesis by (simp add: pure_def)
  next
    case less
    with Br.prems(2,4) refl[of w] have "v \<in> set (vals l)" by auto
    with Br.IH(1)[OF p(3) _ kl] Br.prems(2) less p k show ?thesis by (simp add: pure_def)
  next
    case greater
    with Br.prems(2,4) refl[of w] have "v \<in> set (vals r)" by auto
    with Br.IH(2)[OF p(4) _ kr] Br.prems(2) greater p k show ?thesis by (simp add: pure_def)
  qed
qed

lemma contains_repr_absent:
  assumes strict: "\<And>a b. c a b = 0 \<Longrightarrow> a = b"
  shows "repr h T p \<Longrightarrow> length (addrs T) < k \<Longrightarrow> v \<notin> set (vals T)
         \<Longrightarrow> contains_loop k (pure c) h v p = Some (Inr False)"
proof (induction T arbitrary: k p)
  case Leaf
  then show ?case by (cases k) auto
next
  case (Br l a w r)
  from Br.prems(2) obtain k' where k: "k = Suc k'" by (cases k) auto
  with Br.prems(2) have kl: "length (addrs l) < k'" and kr: "length (addrs r) < k'" by auto
  from Br.prems(1) have p: "p = Some a" "nvalue (h ! a) = w"
    "repr h l (left (h ! a))" "repr h r (right (h ! a))" by auto
  from Br.prems(3) strict[of v w] have ne: "c v w \<noteq> 0" by auto
  from Br.prems(3) have "v \<notin> set (vals l)" "v \<notin> set (vals r)" by auto
  with Br.IH(1)[OF p(3) kl] Br.IH(2)[OF p(4) kr] ne p k show ?case
    by (simp add: pure_def)
qed








subsection \<open>Sorted traversal, size and membership\<close>























lemma consistent_diff: "consistent (\<lambda>a b :: int. a - b)"
  by (auto simp: consistent_def)

lemma run_example:
  "run (pure (\<lambda>a b. a - b)) [0, 1, 2, 1, 2, 2] (init 100 [5, 3, 7 :: int]) =
    \<lparr>tree = \<lparr>root = Some 0,
             heap = [\<lparr>nvalue = 5, left = Some 1, right = Some 2, version = 2\<rparr>,
                     \<lparr>nvalue = 3, left = None, right = None, version = 0\<rparr>,
                     \<lparr>nvalue = 7, left = None, right = None, version = 0\<rparr>],
             max_retries = 100\<rparr>,
     tasks = [\<lparr>ivalue = 5, retries = 0, node = None, parent = None, go_left = False,
               saved_version = 0, saved_left = None, saved_right = None,
               pc = Returned Root_Claimed\<rparr>,
              \<lparr>ivalue = 3, retries = 0, node = None, parent = Some 0, go_left = True,
               saved_version = 0, saved_left = None, saved_right = None,
               pc = Returned Attached_Left\<rparr>,
              \<lparr>ivalue = 7, retries = 1, node = None, parent = Some 0, go_left = False,
               saved_version = 1, saved_left = Some 1, saved_right = None,
               pc = (Returned Attached_Right :: unit pc)\<rparr>]\<rparr>"
  by code_simp





text \<open>
  C7.  With a consistent comparison, after any schedule of calls on a fresh tree,
  \<^verbatim>\<open>contains(v)\<close> returns \<^verbatim>\<open>True\<close> for every value whose insertion has returned; when
  moreover the comparison is zero only on equal values (a total order),
  \<^verbatim>\<open>contains(v)\<close> returns \<^verbatim>\<open>False\<close> for every other value.
\<close>

theorem contains_membership:
  fixes s :: "('a, 'e) sys"
  assumes "consistent c" and "s = run (pure c) sched (init mr vs)"
    and "length (heap (tree s)) < k"
  shows "(v \<in># inserted s \<longrightarrow> contains k (pure c) (tree s) v = Some (Inr True :: 'e + bool))
       \<and> ((\<forall>a b. c a b = 0 \<longrightarrow> a = b) \<and> v \<notin># inserted s \<longrightarrow>
            contains k (pure c) (tree s) v = Some (Inr False :: 'e + bool))"
proof -
  from reachable_ok[of "pure c" sched mr vs] assms(2)
  obtain T where ok: "sys_ok (pure c :: 'a \<Rightarrow> 'a \<Rightarrow> 'e + int) s T" by blast
  then have T: "repr (heap (tree s)) T (root (tree s))"
    and len: "length (addrs T) = length (heap (tree s))"
    and b: "bst_ok (pure c :: 'a \<Rightarrow> 'a \<Rightarrow> 'e + int) T" and ins: "mset (vals T) = inserted s"
    by (auto simp: sys_ok_def tree_ok_def)
  from ins have mem: "v \<in># inserted s \<longleftrightarrow> v \<in> set (vals T)"
    by (metis set_mset_mset)
  have refl: "\<And>a. c a a = 0"
  proof -
    fix a
    from assms(1) have "(c a a < 0) = (0 < c a a)" unfolding consistent_def by blast
    then show "c a a = 0" by linarith
  qed
  have k: "length (addrs T) < k" using len assms(3) by simp
  have "v \<in> set (vals T) \<Longrightarrow> contains k (pure c) (tree s) v = Some (Inr True :: 'e + bool)"
    unfolding contains_def using refl T b k by (rule contains_repr_member)
  moreover have "(\<forall>a b. c a b = 0 \<longrightarrow> a = b) \<Longrightarrow> v \<notin> set (vals T)
      \<Longrightarrow> contains k (pure c) (tree s) v = Some (Inr False :: 'e + bool)"
    unfolding contains_def using T k by (intro contains_repr_absent) auto
  ultimately show ?thesis using mem by blast
qed

theorem contains_membership_witness:
  "contains 4 (pure (\<lambda>a b. a - b))
      (tree (run (pure (\<lambda>a b. a - b)) [0, 1, 2, 1, 2, 2]
                 (init 100 [5, 3, 7 :: int]) :: (int, unit) sys)) 7
     = Some (Inr True :: unit + bool)
   \<and> contains 4 (pure (\<lambda>a b. a - b))
      (tree (run (pure (\<lambda>a b. a - b)) [0, 1, 2, 1, 2, 2]
                 (init 100 [5, 3, 7 :: int]) :: (int, unit) sys)) 4
     = Some (Inr False :: unit + bool)"
  using contains_membership[OF consistent_diff refl,
          where sched = "[0, 1, 2, 1, 2, 2]" and mr = 100 and vs = "[5, 3, 7]"
            and 'e = unit and k = 4 and v = 7]
        contains_membership[OF consistent_diff refl,
          where sched = "[0, 1, 2, 1, 2, 2]" and mr = 100 and vs = "[5, 3, 7]"
            and 'e = unit and k = 4 and v = 4]
  unfolding run_example by (simp add: inserted_def returned_def)

subsection \<open>The retry bound at the first entry of the loop\<close>

text \<open>
  C10.  A call that starts on an empty tree claims the root and returns, whatever
  \<open>max_retries\<close> is: line 72 is reached before the loop.  A call that starts on a
  non-empty tree with \<open>max_retries \<le> 0\<close> fails the loop test \<open>0 < max_retries\<close> at once:
  it raises the retry error in its very first step, with \<open>retries = 0\<close>, before any other
  call could run, and leaves the tree as it was.
\<close>

theorem insert_nonpositive_max_retries:
  "pc f = Start \<Longrightarrow>
     (root t = None \<longrightarrow>
        insert_step compare t f = (set_root t (ivalue f), f\<lparr>pc := Returned Root_Claimed\<rparr>))
   \<and> (root t \<noteq> None \<and> max_retries t \<le> 0 \<longrightarrow>
        insert_step compare t f =
          (t, f\<lparr>retries := 0, node := root t, parent := None, go_left := False,
                pc := Retry_Exhausted\<rparr>))"
  by (simp add: insert_step_def start_def loop_exhausted)

theorem insert_nonpositive_max_retries_witness:
  "insert_step (\<lambda>a b. Inr (a - b)) (BST 0) (call_insert (5::int) :: (int, unit) frame)
     = (\<lparr>root = Some 0, heap = [Node 5], max_retries = 0\<rparr>,
        (call_insert 5)\<lparr>pc := Returned Root_Claimed\<rparr>)
   \<and> insert_step (\<lambda>a b. Inr (a - b)) \<lparr>root = Some 0, heap = [Node 5], max_retries = 0\<rparr>
        (call_insert (3::int) :: (int, unit) frame)
     = (\<lparr>root = Some 0, heap = [Node 5], max_retries = 0\<rparr>,
        (call_insert 3)\<lparr>node := Some 0, pc := Retry_Exhausted\<rparr>)"
  using insert_nonpositive_max_retries
          [of "call_insert (5::int) :: (int, unit) frame" "BST 0" "\<lambda>a b. Inr (a - b)"]
        insert_nonpositive_max_retries
          [of "call_insert (3::int) :: (int, unit) frame"
              "\<lparr>root = Some 0, heap = [Node 5], max_retries = 0\<rparr>" "\<lambda>a b. Inr (a - b)"]
  by (simp add: call_insert_def BST_def set_root_def)

lemma node_evolves_refl: "node_evolves x x"
  by (auto simp: node_evolves_def populated_def)

lemma node_evolves_trans: "node_evolves x y \<Longrightarrow> node_evolves y z \<Longrightarrow> node_evolves x z"
  by (auto simp: node_evolves_def populated_def split: if_splits)

lemma nodes_evolve_refl: "nodes_evolve h h"
  by (simp add: nodes_evolve_def node_evolves_refl)

lemma node_evolves_Node: "node_evolves x y \<Longrightarrow> Node (nvalue y) = Node (nvalue x)"
  by (simp add: node_evolves_def)

lemma nodes_evolve_trans:
  assumes 1: "nodes_evolve h h'" and 2: "nodes_evolve h' h''"
  shows "nodes_evolve h h''"
  unfolding nodes_evolve_def
proof (intro conjI allI impI)
  show "length h \<le> length h''" using 1 2 by (simp add: nodes_evolve_def)
next
  fix a assume a: "a < length h"
  with 1 have "node_evolves (h ! a) (h' ! a)" "a < length h'"
    by (auto simp: nodes_evolve_def)
  moreover with 2 have "node_evolves (h' ! a) (h'' ! a)" by (simp add: nodes_evolve_def)
  ultimately show "node_evolves (h ! a) (h'' ! a)" by (blast intro: node_evolves_trans)
next
  fix a assume a: "a < length h''" "length h \<le> a"
  show "node_evolves (Node (nvalue (h'' ! a))) (h'' ! a)"
  proof (cases "a < length h'")
    case True
    with 1 a have x: "node_evolves (Node (nvalue (h' ! a))) (h' ! a)"
      by (simp add: nodes_evolve_def)
    from 2 True have y: "node_evolves (h' ! a) (h'' ! a)" by (simp add: nodes_evolve_def)
    from node_evolves_trans[OF x y] node_evolves_Node[OF y] show ?thesis by simp
  next
    case False
    with 2 a show ?thesis by (simp add: nodes_evolve_def)
  qed
qed

lemma nodes_evolve_set_root: "nodes_evolve (heap t) (heap (set_root t v))"
  by (auto simp: nodes_evolve_def set_root_def nth_append node_evolves_refl Node_def
      less_Suc_eq)

lemma nodes_evolve_update_append:
  assumes x: "node_evolves (h ! p) x" and y: "node_evolves (Node (nvalue y)) y"
  shows "nodes_evolve h (h[p := x] @ [y])"
  unfolding nodes_evolve_def
proof (intro conjI allI impI)
  show "length h \<le> length (h[p := x] @ [y])" by simp
next
  fix a assume a: "a < length h"
  show "node_evolves (h ! a) ((h[p := x] @ [y]) ! a)"
  proof (cases "a = p")
    case True
    with a x show ?thesis by (simp add: nth_append)
  next
    case False
    with a show ?thesis by (simp add: nth_append node_evolves_refl)
  qed
next
  fix a assume "a < length (h[p := x] @ [y])" "length h \<le> a"
  then have "a = length h" by simp
  with y show "node_evolves (Node (nvalue ((h[p := x] @ [y]) ! a))) ((h[p := x] @ [y]) ! a)"
    by (simp add: nth_append)
qed

lemma nodes_evolve_attach_left:
  "left (heap t ! p) = None \<Longrightarrow> nodes_evolve (heap t) (heap (attach_left t p v))"
  unfolding attach_left_def
  by (simp, rule nodes_evolve_update_append)
     (auto simp: node_evolves_def populated_def Node_def)

lemma nodes_evolve_attach_right:
  "right (heap t ! p) = None \<Longrightarrow> nodes_evolve (heap t) (heap (attach_right t p v))"
  unfolding attach_right_def
  by (simp, rule nodes_evolve_update_append)
     (auto simp: node_evolves_def populated_def Node_def)

lemma loop_nodes_evolve: "nodes_evolve (heap t) (heap (fst (loop t f)))"
proof (induction t f rule: loop.induct)
  case (1 t f)
  show ?case
    by (subst loop.simps)
       (use 1 in \<open>auto simp: Let_def nodes_evolve_refl nodes_evolve_set_root
          nodes_evolve_attach_left nodes_evolve_attach_right split: option.splits\<close>)
qed

lemma insert_step_nodes_evolve: "nodes_evolve (heap t) (heap (fst (insert_step compare t f)))"
  by (auto simp: insert_step_def start_def resume_def loop_nodes_evolve nodes_evolve_refl
      nodes_evolve_set_root split: pc.splits option.splits sum.splits)

lemma sys_step_nodes_evolve:
  "nodes_evolve (heap (tree s)) (heap (tree (sys_step compare i s)))"
  using insert_step_nodes_evolve[of "tree s" compare "tasks s ! i"]
  by (auto simp: sys_step_def nodes_evolve_refl split: prod.splits)

lemma run_nodes_evolve: "nodes_evolve (heap (tree s)) (heap (tree (run compare sched s)))"
proof (induction sched arbitrary: s)
  case Nil
  then show ?case by (simp add: nodes_evolve_refl)
next
  case (Cons i sched)
  from nodes_evolve_trans[OF sys_step_nodes_evolve Cons.IH] show ?case by simp
qed

subsection \<open>The invariants of a node\<close>

text \<open>
  C4.  Over any schedule of calls, from any state and with any comparison function, every
  node that exists keeps its value; a child slot that is present keeps its content (it is
  never reassigned or cleared); and the version grows by exactly one for each of the two
  child slots that went from absent to present, and by nothing else.  A node created during
  the schedule has version 0 plus one for each child slot populated since.  The read-only
  operations return no store, so they change nothing.
\<close>

theorem node_invariants:
  assumes "h = heap (tree s)" and "h' = heap (tree (run compare sched s))"
  shows "length h \<le> length h'
     \<and> (\<forall>a < length h.
          nvalue (h' ! a) = nvalue (h ! a)
          \<and> (left (h ! a) \<noteq> None \<longrightarrow> left (h' ! a) = left (h ! a))
          \<and> (right (h ! a) \<noteq> None \<longrightarrow> right (h' ! a) = right (h ! a))
          \<and> version (h' ! a) = version (h ! a) + populated (left (h ! a)) (left (h' ! a))
                                 + populated (right (h ! a)) (right (h' ! a)))
     \<and> (\<forall>a < length h'. length h \<le> a \<longrightarrow>
          version (h' ! a) = 0 + populated None (left (h' ! a)) + populated None (right (h' ! a)))"
  using run_nodes_evolve[of s compare sched] assms
  by (simp add: nodes_evolve_def node_evolves_def Node_def)

lemma insert_step_finished: "finished f \<Longrightarrow> insert_step compare t f = (t, f)"
  by (cases "pc f") (auto simp: finished_def insert_step_def)

lemma length_tasks_sys_step [simp]: "length (tasks (sys_step compare i s)) = length (tasks s)"
  by (auto simp: sys_step_def split: prod.splits)

lemma length_tasks_run [simp]: "length (tasks (run compare sched s)) = length (tasks s)"
  by (induction sched arbitrary: s) auto

lemma sys_step_finished:
  "finished (tasks s ! j) \<Longrightarrow> tasks (sys_step compare i s) ! j = tasks s ! j"
  by (cases "i = j") (auto simp: sys_step_def insert_step_finished split: prod.splits)

lemma run_finished:
  "finished (tasks s ! j) \<Longrightarrow> tasks (run compare sched s) ! j = tasks s ! j"
  by (induction sched arbitrary: s) (auto simp: sys_step_finished)

lemma loop_writes: "loop t f = (t', f') \<Longrightarrow> t' \<noteq> t \<Longrightarrow> returned f'"
proof (induction t f rule: loop.induct)
  case (1 t f)
  from "1.prems" show ?case
    by (subst (asm) loop.simps)
       (use "1.IH" in \<open>auto simp: Let_def returned_def split: if_splits option.splits\<close>)
qed

lemma insert_step_writes:
  assumes "insert_step compare t f = (t', f')" "t' \<noteq> t"
  shows "returned f' \<and> \<not> finished f"
proof (cases "pc f")
  case Start
  with assms show ?thesis
    by (auto simp: insert_step_def start_def finished_def returned_def
        dest: loop_writes split: if_splits)
next
  case Await_Compare
  with assms show ?thesis
    by (auto simp: insert_step_def resume_def finished_def
        dest: loop_writes split: if_splits option.splits sum.splits)
qed (use assms in \<open>auto simp: insert_step_def\<close>)

lemma sys_step_writes:
  assumes "tree (sys_step compare i s) \<noteq> tree s"
  shows "i < length (tasks s) \<and> returned (tasks (sys_step compare i s) ! i)"
proof -
  from assms have i: "i < length (tasks s)" by (auto simp: sys_step_def split: if_splits)
  obtain t' f' where st: "insert_step compare (tree s) (tasks s ! i) = (t', f')" by fastforce
  with i assms have "t' \<noteq> tree s" by (simp add: sys_step_def)
  from insert_step_writes[OF st this] i st show ?thesis by (simp add: sys_step_def)
qed

lemma returned_finished: "returned f \<Longrightarrow> finished f"
  by (auto simp: returned_def finished_def split: pc.splits)

lemma raised_never_wrote:
  assumes "pc (tasks (run compare (pre @ i # post) s) ! i) = Raised e"
  shows "tree (sys_step compare i (run compare pre s)) = tree (run compare pre s)"
proof (rule ccontr)
  let ?s1 = "run compare pre s"
  assume "tree (sys_step compare i ?s1) \<noteq> tree ?s1"
  from sys_step_writes[OF this]
  have r: "returned (tasks (sys_step compare i ?s1) ! i)" by simp
  have run_app: "\<And>xs ys s0. run compare (xs @ ys) s0 = run compare ys (run compare xs s0)"
  proof -
    fix xs ys s0 show "run compare (xs @ ys) s0 = run compare ys (run compare xs s0)"
      by (induction xs arbitrary: s0) auto
  qed
  have "tasks (run compare (pre @ i # post) s) ! i = tasks (sys_step compare i ?s1) ! i"
    using run_finished[OF returned_finished[OF r], of compare post] by (simp add: run_app)
  with r assms show False by (simp add: returned_def)
qed

subsection \<open>Errors of the comparison function\<close>

lemma contains_loop_raises:
  "search_reaches j compare h v p a \<Longrightarrow> compare v (nvalue (h ! a)) = Inl e \<Longrightarrow> j < k
   \<Longrightarrow> contains_loop k compare h v p = Some (Inl e)"
proof (induction j arbitrary: k p)
  case 0
  then obtain k' where "k = Suc k'" by (cases k) auto
  with 0 show ?case by simp
next
  case (Suc j)
  from Suc.prems(3) obtain k' where k: "k = Suc k'" "j < k'" by (cases k) auto
  from Suc.prems(1) obtain b c where b: "p = Some b" "compare v (nvalue (h ! b)) = Inr c"
    "c \<noteq> 0" "search_reaches j compare h v (if c < 0 then left (h ! b) else right (h ! b)) a"
    by (auto split: option.splits sum.splits)
  from Suc.IH[OF b(4) Suc.prems(2) k(2)] b k show ?case by simp
qed

lemma contains_loop_raised:
  "contains_loop k compare h v p = Some (Inl e) \<Longrightarrow>
     \<exists>j a. j < k \<and> search_reaches j compare h v p a \<and> compare v (nvalue (h ! a)) = Inl e"
proof (induction k arbitrary: p)
  case 0
  then show ?case by simp
next
  case (Suc k)
  show ?case
  proof (cases p)
    case None
    with Suc.prems show ?thesis by simp
  next
    case (Some b)
    show ?thesis
    proof (cases "compare v (nvalue (h ! b))")
      case (Inl e')
      with Suc.prems Some have "e' = e" by simp
      with Inl Some have "search_reaches 0 compare h v p b \<and> compare v (nvalue (h ! b)) = Inl e"
        by simp
      then show ?thesis by blast
    next
      case (Inr c)
      with Suc.prems Some have c: "c \<noteq> 0"
        and r: "contains_loop k compare h v (if c < 0 then left (h ! b) else right (h ! b))
                  = Some (Inl e)"
        by (auto split: if_splits)
      from Suc.IH[OF r] obtain j a where ja: "j < k"
        "search_reaches j compare h v (if c < 0 then left (h ! b) else right (h ! b)) a"
        "compare v (nvalue (h ! a)) = Inl e" by blast
      from ja(2) Some Inr c have "search_reaches (Suc j) compare h v p a" by simp
      with ja(1,3) show ?thesis by (intro exI[of _ "Suc j"] exI[of _ a]) simp
    qed
  qed
qed

lemma contains_loop_returns:
  "repr h T p \<Longrightarrow> length (addrs T) < k \<Longrightarrow> contains_loop k compare h v p \<noteq> None"
proof (induction T arbitrary: k p)
  case Leaf
  then show ?case by (cases k) auto
next
  case (Br l a w r)
  from Br.prems(2) obtain k' where k: "k = Suc k'" by (cases k) auto
  with Br.prems(2) have kl: "length (addrs l) < k'" and kr: "length (addrs r) < k'" by auto
  from Br.prems(1) have p: "p = Some a"
    "repr h l (left (h ! a))" "repr h r (right (h ! a))" by auto
  from Br.IH(1)[OF p(2) kl] Br.IH(2)[OF p(3) kr] p(1) k
  show ?case by (auto split: sum.splits)
qed

text \<open>
  C6.  When the comparison raises \<open>e\<close>, the suspended call of \<^verbatim>\<open>insert\<close> ends with that
  same \<open>e\<close>, in a step that leaves the tree as it was, and it is never resumed (a
  finished call does not step).  A call that ended with an error of the comparison has
  changed the tree in none of its steps: every write is made by the step that returns.
  \<^verbatim>\<open>contains(v)\<close> raises \<open>e\<close> whenever the comparison raises \<open>e\<close> at a node that its search
  reaches, however deep, and an error that comes out of \<^verbatim>\<open>contains\<close> is the error that the
  comparison raised at such a node; on a tree built by \<^verbatim>\<open>insert\<close> the loop always ends
  within as many iterations as there are nodes plus one.  \<^verbatim>\<open>contains\<close> has no store to
  change.
\<close>

theorem comparator_error_propagates:
  "(pc f = Await_Compare \<and> node f = Some n
      \<and> compare (ivalue f) (nvalue (heap t ! n)) = Inl e
     \<longrightarrow> insert_step compare t f = (t, f\<lparr>pc := Raised e\<rparr>)
         \<and> insert_step compare t (f\<lparr>pc := Raised e\<rparr>) = (t, f\<lparr>pc := Raised e\<rparr>))
   \<and> (pc (tasks (run compare (pre @ i # post) s) ! i) = Raised e'
     \<longrightarrow> tree (sys_step compare i (run compare pre s)) = tree (run compare pre s))
   \<and> (search_reaches j compare (heap t) v (root t) a
      \<and> compare v (nvalue (heap t ! a)) = Inl e \<and> j < k
     \<longrightarrow> contains k compare t v = Some (Inl e))
   \<and> (contains k compare t v = Some (Inl e)
     \<longrightarrow> (\<exists>j a. j < k \<and> search_reaches j compare (heap t) v (root t) a
               \<and> compare v (nvalue (heap t ! a)) = Inl e))
   \<and> (t = tree (run compare sched (init mr vs)) \<and> length (heap t) < k
     \<longrightarrow> contains k compare t v \<noteq> None)"
proof -
  have 1: "pc f = Await_Compare \<and> node f = Some n
      \<and> compare (ivalue f) (nvalue (heap t ! n)) = Inl e
     \<longrightarrow> insert_step compare t f = (t, f\<lparr>pc := Raised e\<rparr>)
         \<and> insert_step compare t (f\<lparr>pc := Raised e\<rparr>) = (t, f\<lparr>pc := Raised e\<rparr>)"
    by (auto simp: insert_step_def resume_def)
  have 2: "pc (tasks (run compare (pre @ i # post) s) ! i) = Raised e'
     \<longrightarrow> tree (sys_step compare i (run compare pre s)) = tree (run compare pre s)"
    by (auto intro: raised_never_wrote)
  have 3: "search_reaches j compare (heap t) v (root t) a
      \<and> compare v (nvalue (heap t ! a)) = Inl e \<and> j < k
     \<longrightarrow> contains k compare t v = Some (Inl e)"
    unfolding contains_def by (auto intro: contains_loop_raises)
  have 4: "contains k compare t v = Some (Inl e)
     \<longrightarrow> (\<exists>j a. j < k \<and> search_reaches j compare (heap t) v (root t) a
               \<and> compare v (nvalue (heap t ! a)) = Inl e)"
    unfolding contains_def using contains_loop_raised[of k compare "heap t" v "root t" e]
    by blast
  have 5: "t = tree (run compare sched (init mr vs)) \<and> length (heap t) < k
     \<longrightarrow> contains k compare t v \<noteq> None"
  proof
    assume a: "t = tree (run compare sched (init mr vs)) \<and> length (heap t) < k"
    from reachable_ok[of compare sched mr vs]
    obtain T where "sys_ok compare (run compare sched (init mr vs)) T" ..
    with a have "repr (heap t) T (root t)" "length (addrs T) < k"
      by (auto simp: sys_ok_def tree_ok_def)
    then show "contains k compare t v \<noteq> None"
      unfolding contains_def by (rule contains_loop_returns)
  qed
  from 1 2 3 4 5 show ?thesis by blast
qed

subsection \<open>The two kinds of retry\<close>

text \<open>
  C2.  When the comparison returns and the version of the node differs from the snapshot,
  the result of the comparison is ignored: the retry counter is incremented and the call is
  suspended again at the same node, with the same parent and a fresh snapshot (or raises
  the retry error when the counter has reached \<open>max_retries\<close>); the tree is not touched.
  When the loop is at an absent node below a parent whose slot is occupied, the attachment
  fails: the counter is incremented and the loop continues from the root with no parent, so
  that the next comparison is made at the root.
\<close>

theorem two_tier_retry:
  "(pc f = Await_Compare \<and> node f = Some n
      \<and> compare (ivalue f) (nvalue (heap t ! n)) = Inr c
      \<and> version (heap t ! n) \<noteq> saved_version f
     \<longrightarrow> insert_step compare t f =
          (if retries f + 1 < max_retries t
           then (t, f\<lparr>retries := retries f + 1, saved_version := version (heap t ! n),
                      saved_left := left (heap t ! n), saved_right := right (heap t ! n),
                      pc := Await_Compare\<rparr>)
           else (t, f\<lparr>retries := retries f + 1, pc := Retry_Exhausted\<rparr>)))
   \<and> (retries f < max_retries t \<and> node f = None \<and> parent f = Some p
      \<and> (if go_left f then left (heap t ! p) \<noteq> None else right (heap t ! p) \<noteq> None)
     \<longrightarrow> loop t f = loop t (f\<lparr>retries := retries f + 1, node := root t, parent := None\<rparr>)
         \<and> (\<forall>r. root t = Some r \<and> retries f + 1 < max_retries t \<longrightarrow>
              loop t f =
                (t, f\<lparr>retries := retries f + 1, node := Some r, parent := None,
                       saved_version := version (heap t ! r), saved_left := left (heap t ! r),
                       saved_right := right (heap t ! r), pc := Await_Compare\<rparr>)))"
proof (intro conjI impI)
  assume a: "pc f = Await_Compare \<and> node f = Some n
      \<and> compare (ivalue f) (nvalue (heap t ! n)) = Inr c
      \<and> version (heap t ! n) \<noteq> saved_version f"
  then have "insert_step compare t f = loop t (f\<lparr>retries := retries f + 1\<rparr>)"
    by (simp add: insert_step_def resume_def)
  also have "\<dots> = (if retries f + 1 < max_retries t
           then (t, f\<lparr>retries := retries f + 1, saved_version := version (heap t ! n),
                      saved_left := left (heap t ! n), saved_right := right (heap t ! n),
                      pc := Await_Compare\<rparr>)
           else (t, f\<lparr>retries := retries f + 1, pc := Retry_Exhausted\<rparr>))"
    using a by (subst loop.simps) simp
  finally show "insert_step compare t f = (if retries f + 1 < max_retries t
           then (t, f\<lparr>retries := retries f + 1, saved_version := version (heap t ! n),
                      saved_left := left (heap t ! n), saved_right := right (heap t ! n),
                      pc := Await_Compare\<rparr>)
           else (t, f\<lparr>retries := retries f + 1, pc := Retry_Exhausted\<rparr>))" .
next
  assume b: "retries f < max_retries t \<and> node f = None \<and> parent f = Some p
      \<and> (if go_left f then left (heap t ! p) \<noteq> None else right (heap t ! p) \<noteq> None)"
  then show 1: "loop t f = loop t (f\<lparr>retries := retries f + 1, node := root t, parent := None\<rparr>)"
    by (subst loop.simps) (auto simp: retry_from_root_def split: if_splits)
  show "\<forall>r. root t = Some r \<and> retries f + 1 < max_retries t \<longrightarrow>
              loop t f =
                (t, f\<lparr>retries := retries f + 1, node := Some r, parent := None,
                       saved_version := version (heap t ! r), saved_left := left (heap t ! r),
                       saved_right := right (heap t ! r), pc := Await_Compare\<rparr>)"
    unfolding 1 by (subst loop.simps) simp
qed

lemma run_example_mid:
  "run (pure (\<lambda>a b. a - b)) [0, 1, 2] (init 100 [5, 3, 7 :: int]) =
    \<lparr>tree = \<lparr>root = Some 0,
             heap = [\<lparr>nvalue = 5, left = None, right = None, version = 0\<rparr>],
             max_retries = 100\<rparr>,
     tasks = [\<lparr>ivalue = 5, retries = 0, node = None, parent = None, go_left = False,
               saved_version = 0, saved_left = None, saved_right = None,
               pc = Returned Root_Claimed\<rparr>,
              \<lparr>ivalue = 3, retries = 0, node = Some 0, parent = None, go_left = False,
               saved_version = 0, saved_left = None, saved_right = None,
               pc = Await_Compare\<rparr>,
              \<lparr>ivalue = 7, retries = 0, node = Some 0, parent = None, go_left = False,
               saved_version = 0, saved_left = None, saved_right = None,
               pc = (Await_Compare :: unit pc)\<rparr>]\<rparr>"
  by code_simp

lemma run_example_split:
  "run (pure (\<lambda>a b. a - b)) [1, 2, 2]
     (run (pure (\<lambda>a b. a - b)) [0, 1, 2] (init 100 [5, 3, 7 :: int]))
   = run (pure (\<lambda>a b. a - b)) [0, 1, 2, 1, 2, 2] (init 100 [5, 3, 7 :: int])"
  by simp

theorem node_invariants_witness:
  "length (heap (tree (run (pure (\<lambda>a b. a - b)) [0, 1, 2]
                        (init 100 [5, 3, 7 :: int]) :: (int, unit) sys))) = 1
   \<and> version (heap (tree (run (pure (\<lambda>a b. a - b)) [0, 1, 2]
                        (init 100 [5, 3, 7 :: int]) :: (int, unit) sys)) ! 0) = 0
   \<and> version (heap (tree (run (pure (\<lambda>a b. a - b)) [1, 2, 2]
        (run (pure (\<lambda>a b. a - b)) [0, 1, 2]
           (init 100 [5, 3, 7 :: int]) :: (int, unit) sys))) ! 0) = 0 + 1 + 1
   \<and> version (heap (tree (run (pure (\<lambda>a b. a - b)) [1, 2, 2]
        (run (pure (\<lambda>a b. a - b)) [0, 1, 2]
           (init 100 [5, 3, 7 :: int]) :: (int, unit) sys))) ! 1) = 0"
  using node_invariants[OF refl refl,
          where s = "run (pure (\<lambda>a b. a - b)) [0, 1, 2] (init 100 [5, 3, 7 :: int])
                     :: (int, unit) sys"
            and compare = "pure (\<lambda>a b. a - b)" and sched = "[1, 2, 2]"]
  unfolding run_example_split unfolding run_example run_example_mid
  by (simp add: populated_def)

theorem two_tier_retry_witness:
  "insert_step (pure (\<lambda>a b. a - b))
      \<lparr>root = Some 0,
       heap = [\<lparr>nvalue = 5, left = Some 1, right = None, version = 1\<rparr>, Node 3],
       max_retries = 100\<rparr>
      ((call_insert (7 :: int) :: (int, unit) frame)\<lparr>node := Some 0, pc := Await_Compare\<rparr>)
    = (\<lparr>root = Some 0,
        heap = [\<lparr>nvalue = 5, left = Some 1, right = None, version = 1\<rparr>, Node 3],
        max_retries = 100\<rparr>,
       (call_insert 7)\<lparr>retries := 1, node := Some 0, saved_version := 1,
                        saved_left := Some 1, pc := Await_Compare\<rparr>)
   \<and> loop
      \<lparr>root = Some 0,
       heap = [\<lparr>nvalue = 5, left = Some 1, right = None, version = 1\<rparr>, Node 3],
       max_retries = 100\<rparr>
      ((call_insert (2 :: int) :: (int, unit) frame)\<lparr>parent := Some 0, go_left := True\<rparr>)
    = (\<lparr>root = Some 0,
        heap = [\<lparr>nvalue = 5, left = Some 1, right = None, version = 1\<rparr>, Node 3],
        max_retries = 100\<rparr>,
       (call_insert 2)\<lparr>retries := 1, node := Some 0, parent := None, go_left := True,
                        saved_version := 1, saved_left := Some 1, pc := Await_Compare\<rparr>)"
proof -
  let ?t = "\<lparr>root = Some 0,
             heap = [\<lparr>nvalue = 5 :: int, left = Some 1, right = None, version = 1\<rparr>, Node 3],
             max_retries = 100\<rparr>"
  let ?f = "(call_insert (7 :: int) :: (int, unit) frame)\<lparr>node := Some 0, pc := Await_Compare\<rparr>"
  let ?g = "(call_insert (2 :: int) :: (int, unit) frame)\<lparr>parent := Some 0, go_left := True\<rparr>"
  have 1: "insert_step (pure (\<lambda>a b. a - b)) ?t ?f
    = (?t, (call_insert 7)\<lparr>retries := 1, node := Some 0, saved_version := 1,
                        saved_left := Some 1, pc := Await_Compare\<rparr>)"
    using two_tier_retry[where compare = "pure (\<lambda>a b. a - b)" and n = 0 and c = 2
            and t = ?t and f = ?f, THEN conjunct1]
    by (simp add: call_insert_def pure_def Node_def)
  have "retries ?g < max_retries ?t \<and> node ?g = None \<and> parent ?g = Some 0
      \<and> (if go_left ?g then left (heap ?t ! 0) \<noteq> None else right (heap ?t ! 0) \<noteq> None)"
    by (simp add: call_insert_def)
  from two_tier_retry[where compare = "pure (\<lambda>a b. a - b)" and p = 0
            and t = ?t and f = ?g, THEN conjunct2, rule_format, OF this, THEN conjunct2,
            rule_format, of 0]
  have 2: "loop ?t ?g
    = (?t, (call_insert 2)\<lparr>retries := 1, node := Some 0, parent := None, go_left := True,
                        saved_version := 1, saved_left := Some 1, pc := Await_Compare\<rparr>)"
    by (simp add: call_insert_def Node_def)
  from 1 2 show ?thesis by blast
qed

lemma run_example_raise:
  "run (\<lambda>a b. if a = 3 then Inl () else Inr (a - b)) [0, 1] (init 100 [5, 3 :: int]) =
    \<lparr>tree = \<lparr>root = Some 0,
             heap = [\<lparr>nvalue = 5, left = None, right = None, version = 0\<rparr>],
             max_retries = 100\<rparr>,
     tasks = [\<lparr>ivalue = 5, retries = 0, node = None, parent = None, go_left = False,
               saved_version = 0, saved_left = None, saved_right = None,
               pc = Returned Root_Claimed\<rparr>,
              \<lparr>ivalue = 3, retries = 0, node = Some 0, parent = None, go_left = False,
               saved_version = 0, saved_left = None, saved_right = None,
               pc = Await_Compare\<rparr>]\<rparr>"
  by code_simp

lemma run_example_search:
  "run (\<lambda>a b. if a = 1 \<and> b = 3 then Inl () else Inr (a - b)) [0, 1, 1] (init 100 [5, 3 :: int]) =
    \<lparr>tree = \<lparr>root = Some 0,
             heap = [\<lparr>nvalue = 5, left = Some 1, right = None, version = 1\<rparr>,
                     \<lparr>nvalue = 3, left = None, right = None, version = 0\<rparr>],
             max_retries = 100\<rparr>,
     tasks = [\<lparr>ivalue = 5, retries = 0, node = None, parent = None, go_left = False,
               saved_version = 0, saved_left = None, saved_right = None,
               pc = Returned Root_Claimed\<rparr>,
              \<lparr>ivalue = 3, retries = 0, node = None, parent = Some 0, go_left = True,
               saved_version = 0, saved_left = None, saved_right = None,
               pc = Returned Attached_Left\<rparr>]\<rparr>"
  by code_simp

theorem comparator_error_propagates_witness:
  "pc (tasks (run (\<lambda>a b. if a = 3 then Inl () else Inr (a - b)) ([0, 1] @ 1 # [])
               (init 100 [5, 3 :: int])) ! 1) = Raised ()
   \<and> tree (sys_step (\<lambda>a b. if a = 3 then Inl () else Inr (a - b)) 1
        (run (\<lambda>a b. if a = 3 then Inl () else Inr (a - b)) [0, 1] (init 100 [5, 3 :: int])))
     = tree (run (\<lambda>a b. if a = 3 then Inl () else Inr (a - b)) [0, 1]
              (init 100 [5, 3 :: int]))
   \<and> contains 3 (\<lambda>a b. if a = 1 \<and> b = 3 then Inl () else Inr (a - b))
        (tree (run (\<lambda>a b. if a = 1 \<and> b = 3 then Inl () else Inr (a - b)) [0, 1, 1]
                 (init 100 [5, 3 :: int]))) 1
     = Some (Inl ())
   \<and> contains 3 (\<lambda>a b. if a = 1 \<and> b = 3 then Inl () else Inr (a - b))
        (tree (run (\<lambda>a b. if a = 1 \<and> b = 3 then Inl () else Inr (a - b)) [0, 1, 1]
                 (init 100 [5, 3 :: int]))) 7
     = Some (Inr False)"
proof -
  let ?cmp = "\<lambda>a b :: int. if a = 3 then (Inl () :: unit + int) else Inr (a - b)"
  let ?s1 = "run ?cmp [0, 1] (init 100 [5, 3 :: int])"
  have step: "insert_step ?cmp (tree ?s1) (tasks ?s1 ! 1)
                = (tree ?s1, (tasks ?s1 ! 1)\<lparr>pc := Raised ()\<rparr>)"
    using comparator_error_propagates[where compare = ?cmp and f = "tasks ?s1 ! 1"
            and t = "tree ?s1" and n = 0 and e = "()"]
    unfolding run_example_raise by simp
  have 1: "pc (tasks (run ?cmp ([0, 1] @ 1 # []) (init 100 [5, 3 :: int])) ! 1) = Raised ()"
  proof -
    have "run ?cmp ([0, 1] @ 1 # []) (init 100 [5, 3 :: int]) = sys_step ?cmp 1 ?s1"
      by simp
    also have "tasks \<dots> ! 1 = (tasks ?s1 ! 1)\<lparr>pc := Raised ()\<rparr>"
      using step unfolding run_example_raise by (simp add: sys_step_def)
    finally show ?thesis by simp
  qed
  from comparator_error_propagates[where compare = ?cmp and pre = "[0, 1]" and i = 1
          and post = "[]" and s = "init 100 [5, 3 :: int]" and e' = "()"] 1
  have 2: "tree (sys_step ?cmp 1 ?s1) = tree ?s1" by simp
  let ?cmp2 = "\<lambda>a b :: int. if a = 1 \<and> b = 3 then (Inl () :: unit + int) else Inr (a - b)"
  let ?t = "tree (run ?cmp2 [0, 1, 1] (init 100 [5, 3 :: int]))"
  have r: "search_reaches 1 ?cmp2 (heap ?t) 1 (root ?t) 1
           \<and> ?cmp2 1 (nvalue (heap ?t ! 1)) = Inl () \<and> (1 :: nat) < 3"
    unfolding run_example_search by simp
  from comparator_error_propagates[where compare = ?cmp2 and t = ?t and j = 1 and v = 1
          and a = 1 and e = "()" and k = 3] r
  have 3: "contains 3 ?cmp2 ?t 1 = Some (Inl ())" by blast
  have 4: "contains 3 ?cmp2 ?t 7 = Some (Inr False)"
    unfolding run_example_search by (simp add: contains_def numeral_3_eq_3)
  from 1 2 3 4 show ?thesis by blast
qed

lemma loop_root:
  "loop t f = (t', f') \<Longrightarrow>
     pc f' \<noteq> Returned Root_Claimed \<and> (root t' \<noteq> root t \<longrightarrow> pc f' = Returned Root_In_Loop)"
proof (induction t f rule: loop.induct)
  case (1 t f)
  from "1.prems" show ?case
    by (subst (asm) loop.simps)
       (use "1.IH" in \<open>auto simp: Let_def set_root_def attach_left_def attach_right_def
          split: if_splits option.splits\<close>)
qed

lemma insert_step_root:
  assumes "insert_step compare t f = (t', f')"
  shows "(root t' \<noteq> root t \<longrightarrow>
            (pc f = Start \<and> root t = None \<and> pc f' = Returned Root_Claimed)
            \<or> pc f' = Returned Root_In_Loop)
       \<and> (root_claimed f' = (root_claimed f \<or> (pc f = Start \<and> root t = None)))"
proof (cases "pc f")
  case Start
  with assms show ?thesis
    by (auto simp: insert_step_def start_def root_claimed_def dest: loop_root
        split: if_splits)
next
  case Await_Compare
  with assms show ?thesis
    by (auto simp: insert_step_def resume_def root_claimed_def dest: loop_root
        split: if_splits option.splits sum.splits)
qed (use assms in \<open>auto simp: insert_step_def root_claimed_def\<close>)

lemma filter_count_update:
  "i < length ts \<Longrightarrow>
     length (filter P (ts[i := y])) + (if P (ts ! i) then 1 else 0)
       = length (filter P ts) + (if P y then 1 else 0)"
proof (induction ts arbitrary: i)
  case Nil
  then show ?case by simp
next
  case (Cons x ts)
  then show ?case by (cases i) auto
qed

lemma sys_step_root:
  assumes ok: "sys_ok compare s T"
  shows "(root (tree (sys_step compare i s)) \<noteq> root (tree s) \<longrightarrow>
            i < length (tasks s) \<and> root (tree s) = None \<and> pc (tasks s ! i) = Start
            \<and> pc (tasks (sys_step compare i s) ! i) = Returned Root_Claimed)
       \<and> (length (filter root_claimed (tasks s)) = (if root (tree s) = None then 0 else 1)
           \<longrightarrow> length (filter root_claimed (tasks (sys_step compare i s)))
                 = (if root (tree (sys_step compare i s)) = None then 0 else 1))"
proof (cases "i < length (tasks s)")
  case False
  then show ?thesis by (simp add: sys_step_def)
next
  case True
  let ?f = "tasks s ! i"
  obtain t' f' where st: "insert_step compare (tree s) ?f = (t', f')" by fastforce
  have s': "sys_step compare i s = \<lparr>tree = t', tasks = (tasks s)[i := f']\<rparr>"
    using True st by (simp add: sys_step_def)
  from sys_step_ok[OF ok, of i] obtain T' where ok': "sys_ok compare (sys_step compare i s) T'" ..
  have "f' \<in> set (tasks (sys_step compare i s))"
    using True by (simp add: s' set_update_memI)
  with ok' have "frame_ok compare t' T' f'" by (simp add: sys_ok_def s')
  then have nl: "pc f' \<noteq> Returned Root_In_Loop" by (auto simp: frame_ok_def)
  from insert_step_root[OF st] nl
  have r: "root t' \<noteq> root (tree s) \<longrightarrow>
             pc ?f = Start \<and> root (tree s) = None \<and> pc f' = Returned Root_Claimed"
    and c: "root_claimed f' = (root_claimed ?f \<or> (pc ?f = Start \<and> root (tree s) = None))"
    by auto
  have 1: "root (tree (sys_step compare i s)) \<noteq> root (tree s) \<longrightarrow>
            i < length (tasks s) \<and> root (tree s) = None \<and> pc (tasks s ! i) = Start
            \<and> pc (tasks (sys_step compare i s) ! i) = Returned Root_Claimed"
    using r True by (simp add: s')
  have 2: "length (filter root_claimed (tasks (sys_step compare i s)))
             = (if root (tree (sys_step compare i s)) = None then 0 else 1)"
    if inv: "length (filter root_claimed (tasks s)) = (if root (tree s) = None then 0 else 1)"
  proof (cases "root (tree s)")
    case (Some a)
    with r have "root t' = Some a" by auto
    moreover from c Some have "root_claimed f' = root_claimed ?f" by simp
    ultimately show ?thesis
      using filter_count_update[OF True, of root_claimed f'] inv Some by (simp add: s')
  next
    case None
    with inv have "length (filter root_claimed (tasks s)) = 0" by simp
    then have nf: "\<not> root_claimed ?f" using True
      by (metis filter_empty_conv length_0_conv nth_mem)
    show ?thesis
    proof (cases "pc ?f = Start")
      case True
      with st None have "t' = set_root (tree s) (ivalue ?f)" "root_claimed f'"
        by (auto simp: insert_step_def start_def root_claimed_def)
      then show ?thesis
        using filter_count_update[OF \<open>i < length (tasks s)\<close>, of root_claimed f'] inv None nf
        by (simp add: s' set_root_def)
    next
      case False
      with c nf have "\<not> root_claimed f'" by simp
      moreover from r False have "root t' = None" using None by auto
      ultimately show ?thesis
        using filter_count_update[OF \<open>i < length (tasks s)\<close>, of root_claimed f'] inv None nf
        by (simp add: s')
    qed
  qed
  from 1 2 show ?thesis by blast
qed

lemma run_root:
  assumes "sys_ok compare s T" "root (tree s) \<noteq> None"
  shows "root (tree (run compare sched s)) = root (tree s)"
  using assms
proof (induction sched arbitrary: s T)
  case Nil
  then show ?case by simp
next
  case (Cons i sched)
  from sys_step_root[OF Cons.prems(1), of i] Cons.prems(2)
  have eq: "root (tree (sys_step compare i s)) = root (tree s)" by auto
  from sys_step_ok[OF Cons.prems(1), of i]
  obtain T' where "sys_ok compare (sys_step compare i s) T'" ..
  from Cons.IH[OF this] eq Cons.prems(2) show ?case by simp
qed

lemma run_root_claims:
  assumes "sys_ok compare s T"
    "length (filter root_claimed (tasks s)) = (if root (tree s) = None then 0 else 1)"
  shows "length (filter root_claimed (tasks (run compare sched s)))
           = (if root (tree (run compare sched s)) = None then 0 else 1)"
  using assms
proof (induction sched arbitrary: s T)
  case Nil
  then show ?case by simp
next
  case (Cons i sched)
  from sys_step_ok[OF Cons.prems(1), of i]
  obtain T' where ok': "sys_ok compare (sys_step compare i s) T'" ..
  from sys_step_root[OF Cons.prems(1), of i] Cons.prems(2)
  have "length (filter root_claimed (tasks (sys_step compare i s)))
          = (if root (tree (sys_step compare i s)) = None then 0 else 1)" by blast
  from Cons.IH[OF ok' this] show ?case by simp
qed

lemma init_root_claims: "filter root_claimed (tasks (init mr vs)) = []"
  by (induction vs) (auto simp: init_def call_insert_def root_claimed_def)

subsection \<open>The root\<close>

text \<open>
  C8.  In every state reached from a fresh tree by any schedule of calls: no call has
  returned from line 84, the assignment of the root inside the loop (the branch with
  \<open>node\<close> and \<open>parent\<close> both absent is never taken); the number of calls that claimed the
  root at line 72 is 0 while the root is absent and 1 once it is present; a root that is
  present stays the same over any further schedule; and a step changes the root only when
  the root was absent and the call was at its start, the call then returning from line 72.
\<close>

theorem root_claimed_once:
  fixes s :: "('a, 'e) sys"
  assumes "s = run compare sched (init mr vs)"
  shows "(\<forall>f \<in> set (tasks s). pc f \<noteq> Returned Root_In_Loop)
       \<and> length (filter root_claimed (tasks s)) = (if root (tree s) = None then 0 else 1)
       \<and> (root (tree s) \<noteq> None \<longrightarrow> root (tree (run compare sched' s)) = root (tree s))
       \<and> (root (tree (sys_step compare i s)) \<noteq> root (tree s) \<longrightarrow>
            root (tree s) = None \<and> pc (tasks s ! i) = Start
            \<and> pc (tasks (sys_step compare i s) ! i) = Returned Root_Claimed)"
proof -
  from reachable_ok[of compare sched mr vs] assms
  obtain T where ok: "sys_ok compare s T" by blast
  have 1: "\<forall>f \<in> set (tasks s). pc f \<noteq> Returned Root_In_Loop"
    using ok by (auto simp: sys_ok_def frame_ok_def)
  have 2: "length (filter root_claimed (tasks s)) = (if root (tree s) = None then 0 else 1)"
    unfolding assms
    by (rule run_root_claims[OF init_ok])
       (simp add: init_root_claims, simp add: init_def BST_def)
  from 1 2 run_root[OF ok] sys_step_root[OF ok, of i] show ?thesis by blast
qed

lemma step_example_claim:
  "sys_step (pure (\<lambda>a b. a - b)) 0 (init 100 [5, 3, 7 :: int]) =
    \<lparr>tree = \<lparr>root = Some 0,
             heap = [\<lparr>nvalue = 5, left = None, right = None, version = 0\<rparr>],
             max_retries = 100\<rparr>,
     tasks = [\<lparr>ivalue = 5, retries = 0, node = None, parent = None, go_left = False,
               saved_version = 0, saved_left = None, saved_right = None,
               pc = Returned Root_Claimed\<rparr>,
              call_insert 3, (call_insert 7 :: (int, unit) frame)]\<rparr>"
  by code_simp

theorem root_claimed_once_witness:
  "root (tree (run (pure (\<lambda>a b. a - b)) [0, 1, 2] (init 100 [5, 3, 7 :: int])
               :: (int, unit) sys)) = Some 0
   \<and> root (tree (run (pure (\<lambda>a b. a - b)) [1, 2, 2]
        (run (pure (\<lambda>a b. a - b)) [0, 1, 2] (init 100 [5, 3, 7 :: int])
               :: (int, unit) sys))) = Some 0
   \<and> map pc (tasks (run (pure (\<lambda>a b. a - b)) [0, 1, 2] (init 100 [5, 3, 7 :: int])
               :: (int, unit) sys)) = [Returned Root_Claimed, Await_Compare, Await_Compare]
   \<and> root (tree (run (pure (\<lambda>a b. a - b)) [] (init 100 [5, 3, 7 :: int])
               :: (int, unit) sys)) = None
   \<and> pc (tasks (sys_step (pure (\<lambda>a b. a - b)) 0
        (run (pure (\<lambda>a b. a - b)) [] (init 100 [5, 3, 7 :: int])
               :: (int, unit) sys)) ! 0) = Returned Root_Claimed"
proof -
  have 1: "root (tree (sys_step (pure (\<lambda>a b. a - b)) 0
        (run (pure (\<lambda>a b. a - b)) [] (init 100 [5, 3, 7 :: int]) :: (int, unit) sys)))
      \<noteq> root (tree (run (pure (\<lambda>a b. a - b)) [] (init 100 [5, 3, 7 :: int])
               :: (int, unit) sys))"
    unfolding run.simps step_example_claim by (simp add: init_def BST_def)
  from root_claimed_once[OF refl, where compare = "pure (\<lambda>a b. a - b)"
          and sched = "[]" and mr = 100 and vs = "[5, 3, 7 :: int]" and 'e = unit
          and i = 0] 1
  have 2: "root (tree (run (pure (\<lambda>a b. a - b)) [] (init 100 [5, 3, 7 :: int])
               :: (int, unit) sys)) = None
   \<and> pc (tasks (sys_step (pure (\<lambda>a b. a - b)) 0
        (run (pure (\<lambda>a b. a - b)) [] (init 100 [5, 3, 7 :: int])
               :: (int, unit) sys)) ! 0) = Returned Root_Claimed"
    by blast
  from root_claimed_once[OF refl, where compare = "pure (\<lambda>a b. a - b)"
          and sched = "[0, 1, 2]" and mr = 100 and vs = "[5, 3, 7 :: int]" and 'e = unit
          and sched' = "[1, 2, 2]" and i = 0]
  have 3: "root (tree (run (pure (\<lambda>a b. a - b)) [0, 1, 2] (init 100 [5, 3, 7 :: int])
               :: (int, unit) sys)) = Some 0
   \<and> root (tree (run (pure (\<lambda>a b. a - b)) [1, 2, 2]
        (run (pure (\<lambda>a b. a - b)) [0, 1, 2] (init 100 [5, 3, 7 :: int])
               :: (int, unit) sys))) = Some 0
   \<and> map pc (tasks (run (pure (\<lambda>a b. a - b)) [0, 1, 2] (init 100 [5, 3, 7 :: int])
               :: (int, unit) sys)) = [Returned Root_Claimed, Await_Compare, Await_Compare]"
    unfolding run_example_split unfolding run_example run_example_mid by simp
  from 2 3 show ?thesis by blast
qed



subsection \<open>CachedCompare\<close>




subsection \<open>The retry counter\<close>

lemma max_retries_attach [simp]:
  "max_retries (attach_left t p v) = max_retries t"
  "max_retries (attach_right t p v) = max_retries t"
  "max_retries (set_root t v) = max_retries t"
  by (simp_all add: attach_left_def attach_right_def set_root_def)










subsection \<open>When the retry error is raised\<close>



subsection \<open>Children are allocated after their parent\<close>























subsection \<open>Every call finishes\<close>



end
